theory Spec2Isabelle
  imports Main "HOL-Library.Log_Nat"
begin

section \<open>Python values used by the converter\<close>

text \<open>
  The program is \<^verbatim>\<open>src/main.py\<close>: a Tk application whose method
  \<^verbatim>\<open>convert_images_to_pdf\<close> (lines 266 to 339) turns the stored list of image paths
  into one PDF, one page per image. Integers are Python's unbounded ints. An exception is
  a value: \<open>ZeroDivisionError\<close> is raised by the true division of line 321, every
  other exception comes out of a library call (Pillow, reportlab, the file system) and is
  kept with its message.
\<close>

datatype exn = ZeroDivisionError | LibraryError string

fun str_exn :: "exn \<Rightarrow> string" where
  "str_exn ZeroDivisionError = ''division by zero''"
| "str_exn (LibraryError m) = m"

fun str_nat :: "nat \<Rightarrow> string" where
  "str_nat n = (if n < 10 then [char_of (48 + n)]
     else str_nat (n div 10) @ [char_of (48 + n mod 10)])"

declare str_nat.simps [simp del]

subsection \<open>Floats: IEEE 754 binary64, round to nearest, ties to even\<close>

text \<open>
  A Python float is a binary64 number. A finite float is kept as the rational it denotes,
  and every arithmetic operation returns the exact result rounded to 53 significant bits,
  ties to even. The exponent is not bounded here: for image sides below \<open>2 ^ 53\<close>
  (Pillow keeps them in a C int, below \<open>2 ^ 31\<close>) the quantities of the page arithmetic
  lie between \<open>1 / 2 ^ 45\<close> and \<open>2 ^ 53\<close>, far inside the normal range of binary64,
  where neither overflow nor gradual underflow occurs.
\<close>

definition pow2 :: "int \<Rightarrow> rat" where
  "pow2 e = (if 0 \<le> e then 2 ^ nat e else 1 / 2 ^ nat (- e))"

text \<open>\<open>exponent x\<close> is the \<open>e\<close> with \<open>pow2 e \<le> x < pow2 (e + 1)\<close>, for positive \<open>x\<close>.\<close>

definition exponent :: "rat \<Rightarrow> int" where
  "exponent x = (case quotient_of x of (p, q) \<Rightarrow>
     (let d = bitlen p - bitlen q in if pow2 d \<le> x then d else d - 1))"

definition round_half_even :: "rat \<Rightarrow> int" where
  "round_half_even y = (let f = \<lfloor>y\<rfloor>; r = y - of_int f in
     if r < 1 / 2 then f else if 1 / 2 < r then f + 1 else if even f then f else f + 1)"

definition round_double :: "rat \<Rightarrow> rat" where
  "round_double x = (if x = 0 then 0 else
     (let e = exponent \<bar>x\<bar> - 52 in
        sgn x * of_int (round_half_even (\<bar>x\<bar> / pow2 e)) * pow2 e))"

text \<open>
  \<open>float(n)\<close>, \<open>a / b\<close> on two ints (CPython rounds the exact quotient once), and the
  float operations \<open>*\<close>, \<open>-\<close>, \<open>+\<close>, \<open>/\<close>. An int operand of a mixed operation is
  converted with \<open>py_float\<close> first. \<open>float_div\<close> is used with the constant divisor 2 only.
\<close>

definition py_float :: "int \<Rightarrow> rat" where
  "py_float n = round_double (of_int n)"

definition int_truediv :: "int \<Rightarrow> int \<Rightarrow> exn + rat" where
  "int_truediv a b =
     (if b = 0 then Inl ZeroDivisionError else Inr (round_double (of_int a / of_int b)))"

definition float_mul :: "rat \<Rightarrow> rat \<Rightarrow> rat" where
  "float_mul a b = round_double (a * b)"

definition float_sub :: "rat \<Rightarrow> rat \<Rightarrow> rat" where
  "float_sub a b = round_double (a - b)"

definition float_add :: "rat \<Rightarrow> rat \<Rightarrow> rat" where
  "float_add a b = round_double (a + b)"

definition float_div :: "rat \<Rightarrow> rat \<Rightarrow> rat" where
  "float_div a b = round_double (a / b)"

text \<open>
  The relative error of one rounding is at most \<open>unit_roundoff\<close>. \<open>tolerance\<close> bounds
  the error of the two roundings behind a scaled side of at most 720 points.
\<close>

definition unit_roundoff :: rat where
  "unit_roundoff = 1 / 2 ^ 53"

definition tolerance :: rat where
  "tolerance = 1 / 2 ^ 42"

section \<open>Page geometry (lines 308 to 327)\<close>

definition portrait_size :: "int \<times> int" where
  "portrait_size = (612, 792)"

definition landscape_size :: "int \<times> int" where
  "landscape_size = (792, 612)"

definition margin :: int where
  "margin = 36"

text \<open>Line 311: \<^verbatim>\<open>portrait_size if img.height >= img.width else landscape_size\<close>.\<close>

definition page_size :: "nat \<Rightarrow> nat \<Rightarrow> int \<times> int" where
  "page_size w h = (if h \<ge> w then portrait_size else landscape_size)"

record placement =
  available_w :: int
  available_h :: int
  scale :: rat
  new_w :: rat
  new_h :: rat
  pos_x :: rat
  pos_y :: rat

text \<open>
  Lines 316 to 327 for an image of width \<open>w\<close> and height \<open>h\<close> on a page of the given
  size. The two quotients are evaluated left to right before \<open>min\<close>; either raises
  \<open>ZeroDivisionError\<close> on a zero divisor. There is no other check of the sides.
\<close>

definition place_on_page :: "int \<times> int \<Rightarrow> nat \<Rightarrow> nat \<Rightarrow> exn + placement" where
  "place_on_page pg w h =
     (let page_w = fst pg; page_h = snd pg;
          aw = page_w - 2 * margin;
          ah = page_h - 2 * margin
      in case int_truediv aw (int w) of
           Inl e \<Rightarrow> Inl e
         | Inr rw \<Rightarrow>
             (case int_truediv ah (int h) of
                Inl e \<Rightarrow> Inl e
              | Inr rh \<Rightarrow>
                  (let sc = min rw rh;
                       nw = float_mul (py_float (int w)) sc;
                       nh = float_mul (py_float (int h)) sc
                   in Inr \<lparr>available_w = aw, available_h = ah, scale = sc,
                            new_w = nw, new_h = nh,
                            pos_x = float_div (float_sub (py_float page_w) nw) (py_float 2),
                            pos_y = float_div (float_sub (py_float page_h) nh) (py_float 2)\<rparr>)))"

definition fit_image :: "nat \<Rightarrow> nat \<Rightarrow> exn + placement" where
  "fit_image w h = place_on_page (page_size w h) w h"

section \<open>Images as Pillow presents them\<close>

text \<open>
  An opened image has a mode string, an \<open>info\<close> dictionary, a size and pixel data: one
  list of band values (0 to 255) per pixel, row by row. Only the presence of the key
  \<^verbatim>\<open>"transparency"\<close> in \<open>info\<close> is ever tested.
\<close>

datatype info_value = IntValue int | BytesValue "nat list"

record image =
  mode :: string
  info :: "string \<rightharpoonup> info_value"
  width :: nat
  height :: nat
  pixels :: "nat list list"

text \<open>
  What the program is given from outside: the two dialogs and string helpers of the user
  interface, and the library calls whose code is not part of the repository.
  \<^item> \<open>strip\<close> is \<^verbatim>\<open>str.strip\<close>, \<open>basename\<close> is \<^verbatim>\<open>os.path.basename\<close>;
  \<^item> \<open>asksaveasfilename\<close> maps the proposed file name to the chosen path, empty when
    the dialog is cancelled;
  \<^item> \<open>image_open\<close> is \<^verbatim>\<open>Image.open\<close>, \<open>exif_transpose\<close> is
    \<^verbatim>\<open>ImageOps.exif_transpose\<close>; both may raise;
  \<^item> \<open>convert_pixels img m\<close> is the pixel data of \<^verbatim>\<open>img.convert(m)\<close>;
  \<^item> \<open>default_pagesize\<close> is the page size of a fresh reportlab canvas;
  \<^item> \<open>save_error path\<close> is the exception, if any, that writing the file at \<open>path\<close>
    raises.
\<close>

record env =
  strip :: "string \<Rightarrow> string"
  basename :: "string \<Rightarrow> string"
  asksaveasfilename :: "string \<Rightarrow> string"
  image_open :: "string \<Rightarrow> exn + image"
  exif_transpose :: "image \<Rightarrow> exn + image"
  convert_pixels :: "image \<Rightarrow> string \<Rightarrow> nat list list"
  default_pagesize :: "rat \<times> rat"
  save_error :: "string \<Rightarrow> exn option"

text \<open>
  Modelled from the spec: Pillow's \<^verbatim>\<open>Image.convert\<close>, which is not in the repository.
  The spec has the result in the requested colour model, of the size of the image, and
  has the conversion that follows the compositing drop the alpha channel of an RGBA
  image. The pixel data of every other conversion is the parameter \<open>convert_pixels\<close>.
\<close>

definition convert :: "env \<Rightarrow> image \<Rightarrow> string \<Rightarrow> image" where
  "convert E img m = img\<lparr>mode := m,
     pixels := (if mode img = ''RGBA'' \<and> m = ''RGB'' then map (take 3) (pixels img)
                else convert_pixels E img m)\<rparr>"

text \<open>
  \<^verbatim>\<open>Image.new(mode, size, color)\<close> as line 303 uses it: an image of the given mode
  and size, every pixel of the given colour.
\<close>

definition Image_new :: "string \<Rightarrow> nat \<times> nat \<Rightarrow> nat list \<Rightarrow> image" where
  "Image_new m sz color = \<lparr>mode = m, info = Map.empty, width = fst sz, height = snd sz,
     pixels = replicate (fst sz * snd sz) color\<rparr>"

text \<open>
  Modelled from the spec: the channel arithmetic of Pillow's
  \<^verbatim>\<open>Image.alpha_composite\<close>, which is not in the repository. The spec gives alpha-over
  compositing, per channel \<open>out = src * srcA + dst * (1 - srcA)\<close>, with \<open>srcA\<close> the source
  alpha as a fraction of full coverage; here alpha runs from 0 to 255.
\<close>

definition blend :: "nat \<Rightarrow> nat \<Rightarrow> nat \<Rightarrow> nat" where
  "blend src dst a = (src * a + dst * (255 - a)) div 255"

text \<open>
  Modelled from the spec: one pixel of \<^verbatim>\<open>Image.alpha_composite\<close>, source \<open>s\<close> over
  destination \<open>d\<close>, both with the four bands of RGBA. The alpha of the result is that of
  source over destination.
\<close>

fun over :: "nat list \<Rightarrow> nat list \<Rightarrow> nat list" where
  "over [dr, dg, db, da] [sr, sg, sb, sa] =
     [blend sr dr sa, blend sg dg sa, blend sb db sa, sa + da * (255 - sa) div 255]"
| "over d s = s"

text \<open>
  Modelled from the spec: \<^verbatim>\<open>Image.alpha_composite(im1, im2)\<close>, which is not in the
  repository: \<open>im2\<close> over \<open>im1\<close>, pixel by pixel.
\<close>

definition alpha_composite :: "image \<Rightarrow> image \<Rightarrow> image" where
  "alpha_composite im1 im2 =
     im1\<lparr>pixels := map (\<lambda>(d, s). over d s) (zip (pixels im1) (pixels im2))\<rparr>"

text \<open>Lines 300 to 306: the transparency branch and the direct conversion.\<close>

definition normalize_image :: "env \<Rightarrow> image \<Rightarrow> image" where
  "normalize_image E img =
     (if mode img \<in> {''RGBA'', ''LA''} \<or> (mode img = ''P'' \<and> ''transparency'' \<in> dom (info img))
      then (let rgba = convert E img ''RGBA'';
                bg = Image_new ''RGBA'' (width rgba, height rgba) [255, 255, 255, 255]
            in convert E (alpha_composite bg rgba) ''RGB'')
      else convert E img ''RGB'')"

text \<open>Lines 296 to 306: open, transpose, normalise.\<close>

definition load_image :: "env \<Rightarrow> string \<Rightarrow> exn + image" where
  "load_image E path =
     (case image_open E path of
        Inl e \<Rightarrow> Inl e
      | Inr img \<Rightarrow>
          (case exif_transpose E img of
             Inl e \<Rightarrow> Inl e
           | Inr img' \<Rightarrow> Inr (normalize_image E img')))"

section \<open>The reportlab canvas\<close>

text \<open>
  A canvas has the file name it will write, the current page size, the drawing operations
  of the page being built, and the finished pages. \<open>showPage\<close> closes the current page
  with the current page size. Nothing touches the file before \<open>save\<close>.
\<close>

record drawing =
  d_image :: image
  d_x :: rat
  d_y :: rat
  d_width :: rat
  d_height :: rat

record page =
  page_dims :: "rat \<times> rat"
  content :: "drawing list"

record canvas =
  filename :: string
  pagesize :: "rat \<times> rat"
  code :: "drawing list"
  pages :: "page list"

definition Canvas :: "env \<Rightarrow> string \<Rightarrow> canvas" where
  "Canvas E path = \<lparr>filename = path, pagesize = default_pagesize E, code = [], pages = []\<rparr>"

definition setPageSize :: "canvas \<Rightarrow> int \<times> int \<Rightarrow> canvas" where
  "setPageSize pdf sz = pdf\<lparr>pagesize := (of_int (fst sz), of_int (snd sz))\<rparr>"

text \<open>The page size of line 311 for a \<open>w\<close> by \<open>h\<close> image, as \<open>setPageSize\<close> stores it.\<close>

definition stored_page_size :: "nat \<Rightarrow> nat \<Rightarrow> rat \<times> rat" where
  "stored_page_size w h = (of_int (fst (page_size w h)), of_int (snd (page_size w h)))"

definition drawInlineImage ::
  "canvas \<Rightarrow> image \<Rightarrow> rat \<Rightarrow> rat \<Rightarrow> rat \<Rightarrow> rat \<Rightarrow> canvas" where
  "drawInlineImage pdf img x y w h =
     pdf\<lparr>code := code pdf @ [\<lparr>d_image = img, d_x = x, d_y = y, d_width = w, d_height = h\<rparr>]\<rparr>"

definition showPage :: "canvas \<Rightarrow> canvas" where
  "showPage pdf = pdf\<lparr>pages := pages pdf @ [\<lparr>page_dims = pagesize pdf, content = code pdf\<rparr>],
                       code := []\<rparr>"

text \<open>
  \<open>save\<close> closes a page that still has content, then writes the document; the result is
  the new file system or the exception of the write.
\<close>

definition save ::
  "env \<Rightarrow> canvas \<Rightarrow> (string \<rightharpoonup> page list) \<Rightarrow> exn + (string \<rightharpoonup> page list)" where
  "save E pdf fs =
     (let pdf' = (if code pdf = [] then pdf else showPage pdf)
      in case save_error E (filename pdf) of
           Some e \<Rightarrow> Inl e
         | None \<Rightarrow> Inr (fs(filename pdf \<mapsto> pages pdf')))"

section \<open>The conversion run (lines 266 to 339)\<close>

text \<open>
  The state is what a run can read or change: the three fields of the object, the files
  on disk, and the calls made to the user interface and to the libraries, in order.
\<close>

datatype event =
    ShowWarning string string
  | ShowInfo string string
  | ShowError string string
  | AskSaveAs string
  | NewCanvas string
  | ImageOpen string
  | SavePdf string

record state =
  image_paths :: "string list"
  output_pdf_name :: string
  status_text :: string
  files :: "string \<rightharpoonup> page list"
  events :: "event list"

text \<open>The body of the loop from line 296 on, for one path; the canvas is the loop's.\<close>

definition process_image :: "env \<Rightarrow> canvas \<Rightarrow> string \<Rightarrow> exn + canvas" where
  "process_image E pdf path =
     (case load_image E path of
        Inl e \<Rightarrow> Inl e
      | Inr img \<Rightarrow>
          (let pg = page_size (width img) (height img);
               pdf1 = setPageSize pdf pg
           in case place_on_page pg (width img) (height img) of
                Inl e \<Rightarrow> Inl e
              | Inr pl \<Rightarrow>
                  Inr (showPage
                    (drawInlineImage pdf1 img (pos_x pl) (pos_y pl) (new_w pl) (new_h pl)))))"

text \<open>
  Lines 291 to 331: \<open>n\<close> is \<^verbatim>\<open>total\<close>, \<open>i\<close> counts from 1; the status is set before
  the image is opened; the first exception leaves the loop, with the status as it was set
  last. The refresh of the window (line 293) changes nothing that is kept here.
\<close>

fun process_images ::
  "env \<Rightarrow> nat \<Rightarrow> nat \<Rightarrow> string list \<Rightarrow> state \<Rightarrow> canvas \<Rightarrow> state \<times> (exn + canvas)" where
  "process_images E n i [] s pdf = (s, Inr pdf)"
| "process_images E n i (path # rest) s pdf =
     (let s1 = s\<lparr>status_text :=
                   ''Processing '' @ str_nat i @ ''/'' @ str_nat n @ '': '' @ basename E path,
                 events := events s @ [ImageOpen path]\<rparr>
      in case process_image E pdf path of
           Inl e \<Rightarrow> (s1, Inl e)
         | Inr pdf' \<Rightarrow> process_images E n (i + 1) rest s1 pdf')"

text \<open>Lines 337 to 339: the handler of the \<^verbatim>\<open>try\<close> block.\<close>

definition on_error :: "state \<Rightarrow> exn \<Rightarrow> state" where
  "on_error s ex = s\<lparr>status_text := ''Error.'',
     events := events s @
       [ShowError ''Conversion failed'' (''An error occurred:'' @ [CHR 0x0A] @ str_exn ex)]\<rparr>"

text \<open>
  Lines 275 and 280: the file name proposed by the save dialog,
  \<^verbatim>\<open>self.output_pdf_name.get().strip() or "output"\<close> followed by \<^verbatim>\<open>.pdf\<close>.
\<close>

definition initialfile :: "env \<Rightarrow> state \<Rightarrow> string" where
  "initialfile E s =
     (let default_name =
            (if strip E (output_pdf_name s) = [] then ''output'' else strip E (output_pdf_name s))
      in default_name @ ''.pdf'')"

text \<open>
  The method itself. It returns at once on an empty list (lines 269 to 272) and on a
  cancelled dialog (lines 283 and 284); everything after runs inside the \<^verbatim>\<open>try\<close>.
\<close>

definition convert_images_to_pdf :: "env \<Rightarrow> state \<Rightarrow> state" where
  "convert_images_to_pdf E s =
     (if image_paths s = [] then
        s\<lparr>events := events s @ [ShowWarning ''No images'' ''Please select at least one image.'']\<rparr>
      else
        (let save_path = asksaveasfilename E (initialfile E s);
             s0 = s\<lparr>events := events s @ [AskSaveAs (initialfile E s)]\<rparr>
         in if save_path = [] then s0
            else
              (let s1 = s0\<lparr>events := events s0 @ [NewCanvas save_path]\<rparr>
               in case process_images E (length (image_paths s1)) 1 (image_paths s1) s1
                         (Canvas E save_path) of
                    (s2, Inl ex) \<Rightarrow> on_error s2 ex
                  | (s2, Inr pdf) \<Rightarrow>
                      (let s3 = s2\<lparr>events := events s2 @ [SavePdf save_path]\<rparr>
                       in case save E pdf (files s3) of
                            Inl ex \<Rightarrow> on_error s3 ex
                          | Inr fs \<Rightarrow>
                              s3\<lparr>files := fs,
                                 status_text := ''Done. Saved: '' @ basename E save_path,
                                 events := events s3 @
                                   [ShowInfo ''Success''
                                      (''PDF created successfully:'' @ [CHR 0x0A] @ save_path)]\<rparr>))))"

section \<open>A small world to run the converter in\<close>

text \<open>
  Four image files and a user who accepts the proposed file name: \<open>a.png\<close> is 800 by
  600, \<open>b.png\<close> is 600 by 800, \<open>c.png\<close> is 800 by 800, and nothing else can be opened:
  \<open>z.png\<close> is a file of width 0, which \<^verbatim>\<open>Image.open\<close> refuses like any file it cannot
  identify. The images are opaque RGB, of one colour, and the only
  conversions that occur keep the mode, so Pillow copies the pixels. A fresh canvas has
  the A4 page.
\<close>

definition demo_image :: "nat \<Rightarrow> nat \<Rightarrow> image" where
  "demo_image w h = \<lparr>mode = ''RGB'', info = Map.empty, width = w, height = h,
     pixels = replicate (w * h) [200, 100, 50]\<rparr>"

definition demo_env :: env where
  "demo_env = \<lparr>strip = (\<lambda>t. t), basename = (\<lambda>p. p), asksaveasfilename = (\<lambda>f. f),
     image_open = (\<lambda>p.
       if p = ''a.png'' then Inr (demo_image 800 600)
       else if p = ''b.png'' then Inr (demo_image 600 800)
       else if p = ''c.png'' then Inr (demo_image 800 800)
       else if p = ''z.png'' then Inl (LibraryError ''cannot identify image file'')
       else Inl (LibraryError ''cannot identify image file'')),
     exif_transpose = Inr,
     convert_pixels = (\<lambda>img m. pixels img),
     default_pagesize = (75600 / 127, 106920 / 127),
     save_error = (\<lambda>p. None)\<rparr>"

definition demo_state :: "string list \<Rightarrow> state" where
  "demo_state paths = \<lparr>image_paths = paths, output_pdf_name = [], status_text = ''Ready'',
     files = Map.empty, events = []\<rparr>"


section \<open>Properties of the rounding\<close>

lemma pow2_powi: "pow2 e = 2 powi e"
  by (simp add: pow2_def power_int_def inverse_eq_divide power_one_over)

lemma pow2_pos [simp]: "0 < pow2 e"
  by (simp add: pow2_powi)

lemma pow2_nonneg [simp]: "0 \<le> pow2 e"
  by (simp add: pow2_powi)

lemma pow2_neq0 [simp]: "pow2 e \<noteq> 0"
  by (simp add: pow2_powi)

lemma pow2_minus: "pow2 (- e) = 1 / pow2 e"
  by (simp add: pow2_powi power_int_minus_divide)

lemma pow2_add: "pow2 (a + b) = pow2 a * pow2 b"
  by (simp add: pow2_powi power_int_add)

lemma pow2_diff: "pow2 (a - b) = pow2 a / pow2 b"
  by (simp add: pow2_powi power_int_diff)

lemma pow2_mono: "a \<le> b \<Longrightarrow> pow2 a \<le> pow2 b"
  by (simp add: pow2_powi power_int_increasing)

lemma pow2_nat: "pow2 (int n) = 2 ^ n"
  by (simp add: pow2_def)

lemma exponent_bounds:
  assumes "0 < x"
  shows "pow2 (exponent x) \<le> x \<and> x < pow2 (exponent x + 1)"
proof -
  obtain p q where pq: "quotient_of x = (p, q)" by (cases "quotient_of x")
  have q: "0 < q" using pq by (rule quotient_of_denom_pos)
  have x: "x = of_int p / of_int q" using pq by (rule quotient_of_div)
  have p: "0 < p" using assms q x by (simp add: zero_less_divide_iff)
  define bp where "bp = bitlen p"
  define bq where "bq = bitlen q"
  define d where "d = bp - bq"
  have bp1: "1 \<le> bp" using p bitlen_eq_zero_iff [of p] bitlen_nonneg [of p] by (simp add: bp_def)
  have bq1: "1 \<le> bq" using q bitlen_eq_zero_iff [of q] bitlen_nonneg [of q] by (simp add: bq_def)
  have "2 ^ nat (bp - 1) \<le> p" "p < 2 ^ nat bp" using bitlen_bounds [OF p] by (simp_all add: bp_def)
  then have "(of_int (2 ^ nat (bp - 1)) :: rat) \<le> of_int p" "(of_int p :: rat) < of_int (2 ^ nat bp)"
    by (simp_all only: of_int_le_iff of_int_less_iff)
  then have P: "pow2 (bp - 1) \<le> of_int p" "of_int p < pow2 bp"
    using bp1 by (simp_all add: pow2_def)
  have "2 ^ nat (bq - 1) \<le> q" "q < 2 ^ nat bq" using bitlen_bounds [OF q] by (simp_all add: bq_def)
  then have "(of_int (2 ^ nat (bq - 1)) :: rat) \<le> of_int q" "(of_int q :: rat) < of_int (2 ^ nat bq)"
    by (simp_all only: of_int_le_iff of_int_less_iff)
  then have Q: "pow2 (bq - 1) \<le> of_int q" "of_int q < pow2 bq"
    using bq1 by (simp_all add: pow2_def)
  have qpos: "(0::rat) < of_int q" using q by simp
  have lo: "pow2 (d - 1) \<le> x"
  proof -
    have "pow2 (d - 1) = pow2 (bp - 1) / pow2 bq"
      using pow2_diff [of "bp - 1" bq] by (simp add: d_def algebra_simps)
    also have "\<dots> \<le> of_int p / pow2 bq"
      by (rule divide_right_mono) (use P(1) in simp_all)
    also have "\<dots> \<le> of_int p / of_int q"
      using Q(2) qpos p by (simp add: frac_le)
    finally show ?thesis by (simp add: x)
  qed
  have hi: "x < pow2 (d + 1)"
  proof -
    have "x = of_int p / of_int q" by (rule x)
    also have "\<dots> < pow2 bp / of_int q"
      by (rule divide_strict_right_mono) (use P(2) qpos in simp_all)
    also have "\<dots> \<le> pow2 bp / pow2 (bq - 1)"
      using Q(1) by (simp add: frac_le)
    also have "\<dots> = pow2 (d + 1)"
      using pow2_diff [of bp "bq - 1"] by (simp add: d_def algebra_simps)
    finally show ?thesis .
  qed
  have e: "exponent x = (if pow2 d \<le> x then d else d - 1)"
    by (simp add: exponent_def pq d_def bp_def bq_def Let_def)
  show ?thesis
  proof (cases "pow2 d \<le> x")
    case True
    then show ?thesis using hi e by simp
  next
    case False
    then show ?thesis using lo e by simp
  qed
qed

lemma exponent_bounds2:
  assumes "0 < x"
  shows "pow2 (exponent x) \<le> x" and "x < 2 * pow2 (exponent x)"
  using exponent_bounds [OF assms] pow2_add [of "exponent x" 1] pow2_nat [of 1] by simp_all

lemma exponent_unique:
  assumes "pow2 e \<le> x" and "x < pow2 (e + 1)"
  shows "exponent x = e"
proof -
  have x: "0 < x" using assms(1) pow2_pos [of e] by linarith
  note b = exponent_bounds [OF x]
  have "\<not> exponent x < e"
  proof
    assume "exponent x < e"
    then have "pow2 (exponent x + 1) \<le> pow2 e" by (simp add: pow2_mono)
    then show False using b assms by linarith
  qed
  moreover have "\<not> e < exponent x"
  proof
    assume "e < exponent x"
    then have "pow2 (e + 1) \<le> pow2 (exponent x)" by (simp add: pow2_mono)
    then show False using b assms by linarith
  qed
  ultimately show ?thesis by simp
qed

lemma exponent_unique2:
  assumes "pow2 e \<le> x" and "x < 2 * pow2 e"
  shows "exponent x = e"
proof (rule exponent_unique)
  show "pow2 e \<le> x" by (rule assms(1))
  show "x < pow2 (e + 1)" using assms(2) pow2_add [of e 1] pow2_nat [of 1] by simp
qed

lemma round_half_even_error: "\<bar>of_int (round_half_even y) - y\<bar> \<le> 1 / 2"
proof -
  have "of_int \<lfloor>y\<rfloor> \<le> y" "y < of_int \<lfloor>y\<rfloor> + 1" by linarith+
  then show ?thesis
    by (auto simp add: round_half_even_def Let_def)
qed

lemma round_half_even_near:
  assumes "even k" and "\<bar>y - of_int k\<bar> \<le> 1 / 2"
  shows "round_half_even y = k"
proof -
  consider "y < of_int k" | "y = of_int k + 1 / 2" | "of_int k \<le> y" "y < of_int k + 1 / 2"
    using assms(2) by fastforce
  then show ?thesis
  proof cases
    case 1
    then have f: "\<lfloor>y\<rfloor> = k - 1" using assms(2) by (simp add: floor_unique)
    have "odd (k - 1)" using assms(1) by simp
    then show ?thesis using 1 assms unfolding round_half_even_def Let_def f
      by (auto simp: abs_if split: if_splits)
  next
    case 2
    then have f: "\<lfloor>y\<rfloor> = k" by (simp add: floor_unique)
    show ?thesis using 2 assms(1) unfolding round_half_even_def Let_def f by simp
  next
    case 3
    then have f: "\<lfloor>y\<rfloor> = k" by (simp add: floor_unique)
    show ?thesis using 3 unfolding round_half_even_def Let_def f by simp
  qed
qed

lemma round_half_even_of_int [simp]: "round_half_even (of_int k) = k"
  by (simp add: round_half_even_def)

lemma round_half_even_mono_bounds:
  assumes "of_int a \<le> y" and "y \<le> of_int b"
  shows "a \<le> round_half_even y \<and> round_half_even y \<le> b"
proof -
  have 1: "a \<le> \<lfloor>y\<rfloor>" using assms(1) by (simp add: le_floor_iff)
  have 2: "\<lfloor>y\<rfloor> \<le> b" using assms(2) by (simp add: floor_le_iff)
  have 3: "\<lfloor>y\<rfloor> < b" if "y - of_int \<lfloor>y\<rfloor> > 0"
  proof -
    have "(of_int \<lfloor>y\<rfloor> :: rat) < of_int b" using that assms(2) by linarith
    then show ?thesis by (simp only: of_int_less_iff)
  qed
  show ?thesis using 1 2 3
    by (auto simp add: round_half_even_def Let_def)
qed

lemma round_double_pos:
  "0 < x \<Longrightarrow> round_double x =
     of_int (round_half_even (x / pow2 (exponent x - 52))) * pow2 (exponent x - 52)"
  by (simp add: round_double_def Let_def)

lemma scaled_bounds:
  assumes "0 < x"
  shows "of_int (2 ^ 52) \<le> x / pow2 (exponent x - 52)"
    and "x / pow2 (exponent x - 52) < of_int (2 ^ 53)"
proof -
  note b = exponent_bounds2 [OF assms]
  have a: "pow2 (exponent x) = pow2 (exponent x - 52) * 2 ^ 52"
    using pow2_add [of "exponent x - 52" 52] pow2_nat [of 52] by simp
  show "of_int (2 ^ 52) \<le> x / pow2 (exponent x - 52)"
    using b(1) a by (simp add: pos_le_divide_eq mult.commute)
  show "x / pow2 (exponent x - 52) < of_int (2 ^ 53)"
    using b(2) a by (simp add: pos_divide_less_eq mult.commute)
qed

lemma round_double_form:
  assumes "0 < x"
  shows "\<exists>m. 2 ^ 52 \<le> m \<and> m \<le> 2 ^ 53 \<and> round_double x = of_int m * pow2 (exponent x - 52)"
proof -
  let ?y = "x / pow2 (exponent x - 52)"
  have "2 ^ 52 \<le> round_half_even ?y \<and> round_half_even ?y \<le> 2 ^ 53"
    using scaled_bounds [OF assms] by (intro round_half_even_mono_bounds) simp_all
  then show ?thesis using round_double_pos [OF assms] by blast
qed

lemma round_double_abs_error:
  assumes "0 < x"
  shows "\<bar>round_double x - x\<bar> \<le> pow2 (exponent x - 53)"
proof -
  let ?p = "pow2 (exponent x - 52)"
  let ?y = "x / ?p"
  have "round_double x - x = (of_int (round_half_even ?y) - ?y) * ?p"
    using round_double_pos [OF assms] by (simp add: left_diff_distrib)
  then have "\<bar>round_double x - x\<bar> = \<bar>of_int (round_half_even ?y) - ?y\<bar> * ?p"
    by (simp add: abs_mult)
  also have "\<dots> \<le> (1 / 2) * ?p"
    by (rule mult_right_mono [OF round_half_even_error]) simp
  also have "\<dots> = pow2 (exponent x - 53)"
    using pow2_add [of "exponent x - 53" 1] pow2_nat [of 1] by simp
  finally show ?thesis .
qed

lemma round_double_rel_error:
  assumes "0 < x"
  shows "\<bar>round_double x - x\<bar> \<le> x * pow2 (- 53)"
proof -
  have "pow2 (exponent x - 53) = pow2 (exponent x) * pow2 (- 53)"
    using pow2_add [of "exponent x" "- 53"] by simp
  also have "\<dots> \<le> x * pow2 (- 53)"
    by (rule mult_right_mono) (use exponent_bounds [OF assms] in simp_all)
  finally show ?thesis using round_double_abs_error [OF assms] by linarith
qed

lemma round_double_exact:
  assumes "0 < x" and "x / pow2 (exponent x - 52) = of_int m"
  shows "round_double x = x"
proof -
  have "x = of_int m * pow2 (exponent x - 52)"
    using assms(2) by (simp add: divide_eq_eq)
  then show ?thesis
    using assms by (simp add: round_double_pos)
qed

lemma round_double_mantissa:
  assumes "2 ^ 52 \<le> m" and "m \<le> 2 ^ 53"
  shows "round_double (of_int m * pow2 k) = of_int m * pow2 k"
proof -
  let ?x = "of_int m * pow2 k :: rat"
  have "(of_int (2 ^ 52) :: rat) \<le> of_int m" using assms(1) by (simp only: of_int_le_iff)
  then have lo: "(2 ^ 52 :: rat) \<le> of_int m" by simp
  have m0: "(0::rat) < of_int m" using lo by simp
  have x: "0 < ?x" using m0 by simp
  show ?thesis
  proof (cases "m = 2 ^ 53")
    case True
    have e: "exponent ?x = k + 53"
    proof (rule exponent_unique2)
      show "pow2 (k + 53) \<le> ?x" using pow2_add [of k 53] pow2_nat [of 53] True by simp
      show "?x < 2 * pow2 (k + 53)" using pow2_add [of k 53] pow2_nat [of 53] True by simp
    qed
    have s1: "exponent ?x - 52 = k + 1" by (simp add: e)
    have "?x / pow2 (k + 1) = of_int (2 ^ 52)"
      using pow2_add [of k 1] pow2_nat [of 1] True by simp
    then have "?x / pow2 (exponent ?x - 52) = of_int (2 ^ 52)" by (simp only: s1)
    then show ?thesis by (rule round_double_exact [OF x])
  next
    case False
    then have "m < 2 ^ 53" using assms(2) by simp
    then have "(of_int m :: rat) < of_int (2 ^ 53)" by (simp only: of_int_less_iff)
    then have hi': "(of_int m :: rat) < 2 ^ 53" by simp
    have e: "exponent ?x = k + 52"
    proof (rule exponent_unique2)
      show "pow2 (k + 52) \<le> ?x"
        using pow2_add [of k 52] pow2_nat [of 52] lo by (simp add: mult.commute)
      show "?x < 2 * pow2 (k + 52)"
        using pow2_add [of k 52] pow2_nat [of 52] hi' by (simp add: mult.commute)
    qed
    have "?x / pow2 (exponent ?x - 52) = of_int m" by (simp add: e)
    then show ?thesis by (rule round_double_exact [OF x])
  qed
qed

lemma round_double_gt0: "0 < x \<Longrightarrow> 0 < round_double x"
proof -
  assume x: "0 < x"
  obtain m where m: "2 ^ 52 \<le> m" "round_double x = of_int m * pow2 (exponent x - 52)"
    using round_double_form [OF x] by blast
  have "(0::rat) < of_int m" using m(1) by (simp add: less_le_trans [of 0 "2 ^ 52"])
  then show ?thesis using m(2) by simp
qed

lemma round_double_half:
  assumes "0 < x"
  shows "round_double (round_double x / 2) = round_double x / 2"
proof -
  obtain m where m: "2 ^ 52 \<le> m" "m \<le> 2 ^ 53"
      "round_double x = of_int m * pow2 (exponent x - 52)"
    using round_double_form [OF assms] by blast
  have "round_double x / 2 = of_int m * pow2 (exponent x - 52 - 1)"
    using pow2_diff [of "exponent x - 52" 1] pow2_nat [of 1] by (simp add: m(3))
  then show ?thesis using round_double_mantissa [OF m(1,2)] by simp
qed

lemma round_double_idem: "0 < x \<Longrightarrow> round_double (round_double x) = round_double x"
proof -
  assume x: "0 < x"
  obtain m where m: "2 ^ 52 \<le> m" "m \<le> 2 ^ 53"
      "round_double x = of_int m * pow2 (exponent x - 52)"
    using round_double_form [OF x] by blast
  show ?thesis using round_double_mantissa [OF m(1,2)] by (simp add: m(3))
qed

lemma round_double_of_nat:
  assumes "n < 2 ^ 53"
  shows "round_double (of_nat n) = of_nat n"
proof (cases "n = 0")
  case True
  then show ?thesis by (simp add: round_double_def)
next
  case False
  let ?x = "of_nat n :: rat"
  have x: "0 < ?x" using False by simp
  note b = exponent_bounds [OF x]
  have "(of_nat n :: rat) < of_nat (2 ^ 53)" using assms by (simp only: of_nat_less_iff)
  then have "?x < 2 ^ 53" by simp
  then have "pow2 (exponent ?x) < pow2 53" using b pow2_nat [of 53] by simp
  then have e52: "exponent ?x \<le> 52"
    using pow2_mono [of 53 "exponent ?x"] by (cases "exponent ?x \<le> 52") auto
  define j where "j = nat (52 - exponent ?x)"
  have "- (exponent ?x - 52) = int j" using e52 by (simp add: j_def)
  then have "?x / pow2 (exponent ?x - 52) = ?x * pow2 (int j)"
    using pow2_minus [of "exponent ?x - 52"] by simp
  also have "\<dots> = of_int (int n * 2 ^ j)" by (simp add: pow2_nat)
  finally show ?thesis by (rule round_double_exact [OF x])
qed

lemma pow2_m44: "pow2 (- 44) = 1 / 2 ^ 44"
  by (simp add: pow2_def)

lemma pow2_m45: "pow2 (- 45) = 1 / (2 * 2 ^ 44)"
  by (simp add: pow2_def)

lemma round_double_near:
  assumes "even c" and "2 ^ 8 < c" and "c < 2 ^ 9 - 1" and "\<bar>z - of_int c\<bar> \<le> pow2 (- 45)"
  shows "round_double z = of_int c"
proof -
  define t :: rat where "t = 2 ^ 44"
  have t: "1 \<le> t" by (simp add: t_def)
  have t0: "0 < t" using t by linarith
  have p44: "pow2 (- 44) = 1 / t" by (simp only: pow2_m44 t_def)
  have p45: "pow2 (- 45) = 1 / (2 * t)" by (simp only: pow2_m45 t_def)
  have d1: "1 / (2 * t) \<le> 1 / 2" using t t0 by (simp add: field_simps)
  have "(of_int (2 ^ 8 + 1) :: rat) \<le> of_int c" using assms(2) by (simp only: of_int_le_iff)
  then have c1: "(257 :: rat) \<le> of_int c" by simp
  have "(of_int c :: rat) \<le> of_int (2 ^ 9 - 2)" using assms(3) by (simp only: of_int_le_iff)
  then have c2: "(of_int c :: rat) \<le> 510" by simp
  have a4: "\<bar>z - of_int c\<bar> \<le> 1 / (2 * t)" using assms(4) by (simp only: p45)
  have zlo: "of_int c - 1 / 2 \<le> z" and zhi: "z \<le> of_int c + 1 / 2"
    using a4 d1 by linarith+
  have z: "0 < z" using zlo c1 by linarith
  have e: "exponent z = 8"
  proof (rule exponent_unique2)
    show "pow2 8 \<le> z" using zlo c1 pow2_nat [of 8] by simp
    show "z < 2 * pow2 8" using zhi c2 pow2_nat [of 8] by simp
  qed
  have "exponent z - 52 = - 44" by (simp add: e)
  then have pe: "pow2 (exponent z - 52) = 1 / t" by (simp only: p44)
  have sc: "z / pow2 (exponent z - 52) = z * t" by (simp add: pe)
  have tint: "t = of_int (2 ^ 44)" by (simp add: t_def)
  have "\<bar>z * t - of_int (c * 2 ^ 44)\<bar> = \<bar>(z - of_int c) * t\<bar>"
    by (simp only: of_int_mult tint [symmetric] left_diff_distrib)
  also have "\<dots> = \<bar>z - of_int c\<bar> * t" using t0 by (simp add: abs_mult)
  also have "\<dots> \<le> (1 / (2 * t)) * t"
    by (rule mult_right_mono [OF a4]) (use t0 in simp)
  also have "\<dots> = 1 / 2" using t0 by simp
  finally have near: "\<bar>z * t - of_int (c * 2 ^ 44)\<bar> \<le> 1 / 2" .
  have ev: "even (c * 2 ^ 44)" by simp
  have r: "round_half_even (z * t) = c * 2 ^ 44"
    by (rule round_half_even_near [OF ev near])
  have "round_double z =
      of_int (round_half_even (z / pow2 (exponent z - 52))) * pow2 (exponent z - 52)"
    by (rule round_double_pos [OF z])
  also have "\<dots> = of_int (round_half_even (z * t)) * pow2 (exponent z - 52)"
    by (simp only: sc)
  also have "\<dots> = of_int (c * 2 ^ 44) * (1 / t)"
    by (simp only: r pe)
  also have "\<dots> = of_int c * t * (1 / t)" by (simp only: of_int_mult tint [symmetric])
  also have "\<dots> = of_int c" using t0 by simp
  finally show ?thesis .
qed

section \<open>Scaling and centring in floating point\<close>

lemma pow2_m53: "pow2 (- 53) = unit_roundoff"
  by (simp add: pow2_def unit_roundoff_def)

lemma round_double_lower: "0 < x \<Longrightarrow> x * (1 - unit_roundoff) \<le> round_double x"
  using round_double_rel_error [of x] by (simp add: pow2_m53 algebra_simps abs_le_iff)

lemma round_double_upper: "0 < x \<Longrightarrow> round_double x \<le> x * (1 + unit_roundoff)"
  using round_double_rel_error [of x] by (simp add: pow2_m53 algebra_simps abs_le_iff)

lemma unit_roundoff_bounds: "0 < unit_roundoff" "unit_roundoff < 1"
  by (simp_all add: unit_roundoff_def)

lemma scaled_upper:
  assumes "0 < a" and "0 < n" and "0 < sc" and "sc \<le> round_double (a / n)"
  shows "round_double (n * sc) \<le> a * (1 + unit_roundoff) * (1 + unit_roundoff)"
proof -
  have u: "0 < 1 + unit_roundoff" using unit_roundoff_bounds by simp
  have "n * sc \<le> n * round_double (a / n)"
    using assms(2,4) by (simp add: mult_left_mono)
  also have "\<dots> \<le> n * (a / n * (1 + unit_roundoff))"
    using assms(1,2) by (intro mult_left_mono round_double_upper) simp_all
  also have "\<dots> = a * (1 + unit_roundoff)" using assms(2) by simp
  finally have 1: "n * sc \<le> a * (1 + unit_roundoff)" .
  have "round_double (n * sc) \<le> n * sc * (1 + unit_roundoff)"
    using assms(2,3) by (intro round_double_upper) simp
  also have "\<dots> \<le> a * (1 + unit_roundoff) * (1 + unit_roundoff)"
    using 1 u by (simp add: mult_right_mono)
  finally show ?thesis .
qed

lemma scaled_lower:
  assumes "0 < a" and "0 < n"
  shows "a * (1 - unit_roundoff) * (1 - unit_roundoff) \<le> round_double (n * round_double (a / n))"
proof -
  have u: "0 < 1 - unit_roundoff" using unit_roundoff_bounds by simp
  have q: "0 < a / n" using assms by simp
  have r: "0 < round_double (a / n)" using q by (rule round_double_gt0)
  have "a * (1 - unit_roundoff) = n * (a / n * (1 - unit_roundoff))" using assms(2) by simp
  also have "\<dots> \<le> n * round_double (a / n)"
    using assms(2) q by (intro mult_left_mono round_double_lower) simp_all
  finally have 1: "a * (1 - unit_roundoff) \<le> n * round_double (a / n)" .
  have "a * (1 - unit_roundoff) * (1 - unit_roundoff) \<le> n * round_double (a / n) * (1 - unit_roundoff)"
    using 1 u by (simp add: mult_right_mono)
  also have "\<dots> \<le> round_double (n * round_double (a / n))"
    using assms(2) r by (intro round_double_lower) simp
  finally show ?thesis .
qed

lemma within_tolerance_upper:
  assumes "0 < a" and "a \<le> 720"
  shows "a * (1 + unit_roundoff) * (1 + unit_roundoff) \<le> a + tolerance"
proof -
  have "a * (1 + unit_roundoff) * (1 + unit_roundoff) - a
      = a * (2 * unit_roundoff + unit_roundoff * unit_roundoff)"
    by (simp add: algebra_simps)
  also have "\<dots> \<le> 720 * (2 * unit_roundoff + unit_roundoff * unit_roundoff)"
    using assms(2) unit_roundoff_bounds by (intro mult_right_mono) simp_all
  also have "\<dots> \<le> tolerance" by (simp add: unit_roundoff_def tolerance_def)
  finally show ?thesis by simp
qed

lemma within_tolerance_lower:
  assumes "0 < a" and "a \<le> 720"
  shows "a - tolerance \<le> a * (1 - unit_roundoff) * (1 - unit_roundoff)"
proof -
  have "a - a * (1 - unit_roundoff) * (1 - unit_roundoff)
      = a * (2 * unit_roundoff - unit_roundoff * unit_roundoff)"
    by (simp add: algebra_simps)
  also have "\<dots> \<le> a * (2 * unit_roundoff)"
    using assms(1) unit_roundoff_bounds by (intro mult_left_mono) simp_all
  also have "\<dots> \<le> 720 * (2 * unit_roundoff)"
    using assms(2) unit_roundoff_bounds by (intro mult_right_mono) simp_all
  also have "\<dots> \<le> tolerance" by (simp add: unit_roundoff_def tolerance_def)
  finally show ?thesis by simp
qed


lemma round_double_2: "round_double 2 = 2"
  using round_double_of_nat [of 2] by simp

lemma py_float_2: "py_float 2 = 2"
  by (simp add: py_float_def round_double_2)

lemma py_float_nat: "n < 2 ^ 53 \<Longrightarrow> py_float (int n) = of_nat n"
  using round_double_of_nat [of n] by (simp add: py_float_def)


lemma place_on_page_Inr:
  assumes "0 < w" and "w < 2 ^ 53" and "0 < h" and "h < 2 ^ 53"
  shows "\<exists>pl. place_on_page pg w h = Inr pl
     \<and> available_w pl = fst pg - 72 \<and> available_h pl = snd pg - 72
     \<and> scale pl = min (round_double (of_int (fst pg - 72) / of_nat w))
                      (round_double (of_int (snd pg - 72) / of_nat h))
     \<and> new_w pl = round_double (of_nat w * scale pl)
     \<and> new_h pl = round_double (of_nat h * scale pl)
     \<and> pos_x pl = round_double (round_double (py_float (fst pg) - new_w pl) / 2)
     \<and> pos_y pl = round_double (round_double (py_float (snd pg) - new_h pl) / 2)"
  using assms
  by (simp add: place_on_page_def Let_def int_truediv_def float_mul_def float_sub_def
      float_div_def py_float_nat py_float_2 margin_def)

lemma scale_to_fit_bounds:
  fixes aw ah n m sc :: rat
  assumes a: "0 < aw" "aw \<le> 720" "0 < ah" "ah \<le> 720" and n: "0 < n" and m: "0 < m"
    and sc: "sc = min (round_double (aw / n)) (round_double (ah / m))"
  shows "0 < sc"
    and "round_double (n * sc) \<le> aw + tolerance"
    and "round_double (m * sc) \<le> ah + tolerance"
    and "\<bar>round_double (n * sc) - aw\<bar> \<le> tolerance \<or> \<bar>round_double (m * sc) - ah\<bar> \<le> tolerance"
proof -
  have rn: "0 < round_double (aw / n)" using a(1) n by (intro round_double_gt0) simp
  have rm: "0 < round_double (ah / m)" using a(3) m by (intro round_double_gt0) simp
  show pos: "0 < sc" using rn rm by (simp add: sc)
  have le1: "sc \<le> round_double (aw / n)" and le2: "sc \<le> round_double (ah / m)"
    by (simp_all add: sc)
  show up1: "round_double (n * sc) \<le> aw + tolerance"
    using scaled_upper [OF a(1) n pos le1] within_tolerance_upper [OF a(1,2)] by linarith
  show up2: "round_double (m * sc) \<le> ah + tolerance"
    using scaled_upper [OF a(3) m pos le2] within_tolerance_upper [OF a(3,4)] by linarith
  show "\<bar>round_double (n * sc) - aw\<bar> \<le> tolerance \<or> \<bar>round_double (m * sc) - ah\<bar> \<le> tolerance"
  proof (cases "round_double (aw / n) \<le> round_double (ah / m)")
    case True
    then have "sc = round_double (aw / n)" by (simp add: sc)
    then have "aw - tolerance \<le> round_double (n * sc)"
      using scaled_lower [OF a(1) n] within_tolerance_lower [OF a(1,2)] by simp
    then show ?thesis using up1 by (simp add: abs_le_iff)
  next
    case False
    then have "sc = round_double (ah / m)" by (simp add: sc)
    then have "ah - tolerance \<le> round_double (m * sc)"
      using scaled_lower [OF a(3) m] within_tolerance_lower [OF a(3,4)] by simp
    then show ?thesis using up2 by (simp add: abs_le_iff)
  qed
qed

lemma scale_up:
  fixes aw ah n m :: rat
  assumes "n + 1 \<le> aw" and "m + 1 \<le> ah" and "0 < n" and "0 < m"
    and "aw \<le> 720" and "ah \<le> 720"
  shows "1 < min (round_double (aw / n)) (round_double (ah / m))"
proof -
  have key: "1 < round_double (a / k)" if "k + 1 \<le> a" "0 < k" "a \<le> 720" for a k :: rat
  proof -
    have k: "k \<le> 719" using that by linarith
    have "1 + 1 / 719 \<le> 1 + 1 / k" using that(2) k by (simp add: frac_le)
    also have "\<dots> = (k + 1) / k" using that(2) by (simp add: field_simps)
    also have "\<dots> \<le> a / k" using that by (simp add: divide_right_mono)
    finally have q: "1 + 1 / 719 \<le> a / k" .
    then have q0: "0 < a / k" by linarith
    have "1 < (1 + 1 / 719) * (1 - unit_roundoff)" by (simp add: unit_roundoff_def)
    also have "\<dots> \<le> a / k * (1 - unit_roundoff)"
      using q unit_roundoff_bounds by (intro mult_right_mono) simp_all
    also have "\<dots> \<le> round_double (a / k)" using q0 by (rule round_double_lower)
    finally show ?thesis .
  qed
  show ?thesis using key [OF assms(1,3,5)] key [OF assms(2,4,6)] by simp
qed


lemma exponent_less:
  assumes "0 < x" and "x < pow2 k"
  shows "exponent x < k"
proof (rule ccontr)
  assume "\<not> exponent x < k"
  then have "pow2 k \<le> pow2 (exponent x)" by (simp add: pow2_mono)
  then show False using exponent_bounds2(1) [OF assms(1)] assms(2) by linarith
qed

lemma centred_sum:
  fixes c :: int and v :: rat
  assumes c: "even c" "2 ^ 8 < c" "c < 2 ^ 9 - 1"
    and v: "0 < v" and le: "round_double v \<le> of_int (2 * c) - 64"
  shows "round_double (round_double (round_double (of_int (2 * c) - round_double v) / 2)
           + round_double (round_double v / 2)) = of_int c"
proof -
  define nw where "nw = round_double v"
  define d where "d = of_int (2 * c) - nw"
  have nw: "0 < nw" unfolding nw_def using v by (rule round_double_gt0)
  have "(of_int c :: rat) \<le> of_int (2 ^ 9 - 2)" using c(3) by (simp only: of_int_le_iff)
  then have c2: "(of_int c :: rat) \<le> 510" by simp
  have d0: "0 < d" using le by (simp add: d_def nw_def)
  have "d < 1024" using nw c2 by (simp add: d_def)
  then have "d < pow2 10" by (simp add: pow2_def)
  then have "exponent d < 10" using d0 by (intro exponent_less)
  then have "pow2 (exponent d - 53) \<le> pow2 (- 44)" by (intro pow2_mono) simp
  then have err: "\<bar>round_double d - d\<bar> \<le> pow2 (- 44)"
    using round_double_abs_error [OF d0] by linarith
  have h1: "round_double (round_double d / 2) = round_double d / 2"
    using d0 by (rule round_double_half)
  have h2: "round_double (nw / 2) = nw / 2"
    unfolding nw_def using v by (rule round_double_half)
  have "pow2 (- 44) = 2 * pow2 (- 45)" using pow2_add [of "- 45" 1] pow2_nat [of 1] by simp
  then have "\<bar>(round_double d - d) / 2\<bar> \<le> pow2 (- 45)" using err by simp
  moreover have "round_double d / 2 + nw / 2 - of_int c = (round_double d - d) / 2"
    by (simp add: d_def field_simps)
  ultimately have "\<bar>(round_double d / 2 + nw / 2) - of_int c\<bar> \<le> pow2 (- 45)" by simp
  then have "round_double (round_double d / 2 + nw / 2) = of_int c"
    by (rule round_double_near [OF c])
  then show ?thesis by (simp only: h1 h2 d_def [symmetric] nw_def [symmetric])
qed


lemma py_float_page: "py_float 612 = 612" "py_float 792 = 792"
  using round_double_of_nat [of 612] round_double_of_nat [of 792]
  by (simp_all add: py_float_def)

lemma half_page: "int_truediv 612 2 = Inr 306" "int_truediv 792 2 = Inr 396"
  using round_double_of_nat [of 306] round_double_of_nat [of 396]
  by (simp_all add: int_truediv_def)

lemma tolerance_small: "0 < tolerance" "tolerance \<le> 8"
  by (simp_all add: tolerance_def)

lemma place_on_letter:
  assumes w: "0 < w" "w < 2 ^ 53" and h: "0 < h" "h < 2 ^ 53"
    and pg: "pg = portrait_size \<or> pg = landscape_size"
  shows "\<exists>pl. place_on_page pg w h = Inr pl
     \<and> available_w pl = fst pg - 72 \<and> available_h pl = snd pg - 72
     \<and> scale pl = min (round_double (of_int (available_w pl) / of_nat w))
                      (round_double (of_int (available_h pl) / of_nat h))
     \<and> new_w pl = round_double (of_nat w * scale pl)
     \<and> new_h pl = round_double (of_nat h * scale pl)
     \<and> new_w pl \<le> of_int (available_w pl) + tolerance
     \<and> new_h pl \<le> of_int (available_h pl) + tolerance
     \<and> (\<bar>new_w pl - of_int (available_w pl)\<bar> \<le> tolerance
          \<or> \<bar>new_h pl - of_int (available_h pl)\<bar> \<le> tolerance)
     \<and> (int w < available_w pl \<and> int h < available_h pl \<longrightarrow> 1 < scale pl)
     \<and> pos_x pl = float_div (float_sub (py_float (fst pg)) (new_w pl)) (py_float 2)
     \<and> pos_y pl = float_div (float_sub (py_float (snd pg)) (new_h pl)) (py_float 2)
     \<and> Inr (float_add (pos_x pl) (float_div (new_w pl) (py_float 2))) = int_truediv (fst pg) 2
     \<and> Inr (float_add (pos_y pl) (float_div (new_h pl) (py_float 2))) = int_truediv (snd pg) 2"
proof -
  obtain pl where pl: "place_on_page pg w h = Inr pl"
      "available_w pl = fst pg - 72" "available_h pl = snd pg - 72"
      "scale pl = min (round_double (of_int (fst pg - 72) / of_nat w))
                      (round_double (of_int (snd pg - 72) / of_nat h))"
      "new_w pl = round_double (of_nat w * scale pl)"
      "new_h pl = round_double (of_nat h * scale pl)"
      "pos_x pl = round_double (round_double (py_float (fst pg) - new_w pl) / 2)"
      "pos_y pl = round_double (round_double (py_float (snd pg) - new_h pl) / 2)"
    using place_on_page_Inr [OF w h, of pg] by blast
  define aw :: rat where "aw = of_int (fst pg - 72)"
  define ah :: rat where "ah = of_int (snd pg - 72)"
  have a: "0 < aw" "aw \<le> 720" "0 < ah" "ah \<le> 720"
    using pg by (auto simp: aw_def ah_def portrait_size_def landscape_size_def)
  have n: "(0::rat) < of_nat w" and m: "(0::rat) < of_nat h" using w h by simp_all
  have sc: "scale pl = min (round_double (aw / of_nat w)) (round_double (ah / of_nat h))"
    by (simp only: pl(4) aw_def ah_def)
  note b = scale_to_fit_bounds [OF a n m sc]
  have up: "int w < available_w pl \<and> int h < available_h pl \<longrightarrow> 1 < scale pl"
  proof
    assume lt: "int w < available_w pl \<and> int h < available_h pl"
    then have "int w + 1 \<le> fst pg - 72" "int h + 1 \<le> snd pg - 72" by (simp_all add: pl(2,3))
    then have "(of_int (int w + 1) :: rat) \<le> of_int (fst pg - 72)"
        "(of_int (int h + 1) :: rat) \<le> of_int (snd pg - 72)"
      by (simp_all only: of_int_le_iff)
    then have "of_nat w + 1 \<le> aw" "of_nat h + 1 \<le> ah" by (simp_all add: aw_def ah_def)
    then show "1 < scale pl" unfolding sc using n m a(2,4) by (intro scale_up)
  qed
  have vw: "(0::rat) < of_nat w * scale pl" and vh: "(0::rat) < of_nat h * scale pl"
    using n m b(1) by simp_all
  have cx: "Inr (float_add (pos_x pl) (float_div (new_w pl) (py_float 2))) = int_truediv (fst pg) 2"
  proof -
    obtain c :: int where c: "fst pg = 2 * c" "even c" "2 ^ 8 < c" "c < 2 ^ 9 - 1"
        "int_truediv (fst pg) 2 = Inr (of_int c)" "py_float (fst pg) = of_int (2 * c)"
      using pg half_page py_float_page
      by (auto simp: portrait_size_def landscape_size_def intro: that [of 306] that [of 396])
    have "round_double (of_nat w * scale pl) \<le> aw + tolerance" by (rule b(2))
    also have "\<dots> \<le> of_int (2 * c) - 64"
      using tolerance_small(2) by (simp add: aw_def c(1))
    finally have le: "round_double (of_nat w * scale pl) \<le> of_int (2 * c) - 64" .
    show ?thesis
      using centred_sum [OF c(2,3,4) vw le]
      by (simp add: float_add_def float_div_def py_float_2 pl(5,7) c(5,6))
  qed
  have cy: "Inr (float_add (pos_y pl) (float_div (new_h pl) (py_float 2))) = int_truediv (snd pg) 2"
  proof -
    obtain c :: int where c: "snd pg = 2 * c" "even c" "2 ^ 8 < c" "c < 2 ^ 9 - 1"
        "int_truediv (snd pg) 2 = Inr (of_int c)" "py_float (snd pg) = of_int (2 * c)"
      using pg half_page py_float_page
      by (auto simp: portrait_size_def landscape_size_def intro: that [of 306] that [of 396])
    have "round_double (of_nat h * scale pl) \<le> ah + tolerance" by (rule b(3))
    also have "\<dots> \<le> of_int (2 * c) - 64"
      using tolerance_small(2) by (simp add: ah_def c(1))
    finally have le: "round_double (of_nat h * scale pl) \<le> of_int (2 * c) - 64" .
    show ?thesis
      using centred_sum [OF c(2,3,4) vh le]
      by (simp add: float_add_def float_div_def py_float_2 pl(6,8) c(5,6))
  qed
  have px: "pos_x pl = float_div (float_sub (py_float (fst pg)) (new_w pl)) (py_float 2)"
    and py: "pos_y pl = float_div (float_sub (py_float (snd pg)) (new_h pl)) (py_float 2)"
    by (simp_all add: float_div_def float_sub_def py_float_2 pl(7,8))
  have sc': "scale pl = min (round_double (of_int (available_w pl) / of_nat w))
                      (round_double (of_int (available_h pl) / of_nat h))"
    by (simp only: pl(2,3,4))
  have b2: "new_w pl \<le> of_int (available_w pl) + tolerance"
    and b3: "new_h pl \<le> of_int (available_h pl) + tolerance"
    and b4: "\<bar>new_w pl - of_int (available_w pl)\<bar> \<le> tolerance
          \<or> \<bar>new_h pl - of_int (available_h pl)\<bar> \<le> tolerance"
    using b(2,3,4) by (simp_all only: pl(2,3,5,6) aw_def ah_def)
  show ?thesis
    using pl(1,2,3,5,6) sc' b2 b3 b4 up px py cx cy by blast
qed

section \<open>Scale to fit (C3)\<close>

text \<open>
  C3, as the source computes it. For every image with positive width and height (below
  \<open>2 ^ 53\<close>; Pillow keeps the sides of an image below \<open>2 ^ 31\<close>) the placement
  succeeds: the scale is the smaller of the two binary64 quotients
  printable width / image width and printable height / image height, where the printable
  sides are the page sides less 72; the scaled sides are the rounded products of the image
  sides with the scale. The scaled width exceeds the printable width by at most
  \<open>tolerance\<close>, the scaled height the printable height by at most \<open>tolerance\<close>, and at
  least one scaled side is within \<open>tolerance\<close> of its printable side. An image smaller than
  the printable area in both directions gets a scale above 1.
\<close>

theorem scale_to_fit_within_tolerance:
  assumes "0 < w" and "w < 2 ^ 53" and "0 < h" and "h < 2 ^ 53"
  shows "\<exists>pl. fit_image w h = Inr pl
     \<and> available_w pl = fst (page_size w h) - 72
     \<and> available_h pl = snd (page_size w h) - 72
     \<and> scale pl = min (round_double (of_int (available_w pl) / of_nat w))
                      (round_double (of_int (available_h pl) / of_nat h))
     \<and> new_w pl = round_double (of_nat w * scale pl)
     \<and> new_h pl = round_double (of_nat h * scale pl)
     \<and> new_w pl \<le> of_int (available_w pl) + tolerance
     \<and> new_h pl \<le> of_int (available_h pl) + tolerance
     \<and> (\<bar>new_w pl - of_int (available_w pl)\<bar> \<le> tolerance
          \<or> \<bar>new_h pl - of_int (available_h pl)\<bar> \<le> tolerance)
     \<and> (int w < available_w pl \<and> int h < available_h pl \<longrightarrow> 1 < scale pl)"
proof -
  have pg: "page_size w h = portrait_size \<or> page_size w h = landscape_size"
    by (simp add: page_size_def)
  show ?thesis
    unfolding fit_image_def
    using place_on_letter [OF assms pg] by blast
qed

text \<open>A 100 by 50 image: landscape, printable area 720 by 540, scaled up.\<close>

theorem scale_to_fit_witness:
  "\<exists>pl. fit_image 100 50 = Inr pl
     \<and> available_w pl = 720 \<and> available_h pl = 540
     \<and> scale pl = min (round_double (720 / 100)) (round_double (540 / 50))
     \<and> new_w pl \<le> 720 + tolerance \<and> new_h pl \<le> 540 + tolerance
     \<and> 1 < scale pl"
  using scale_to_fit_within_tolerance [of 100 50]
  by (auto simp: page_size_def landscape_size_def)

text \<open>
  C3 as stated, with exact bounds, fails: a 1125 by 2436 image (portrait, printable area
  540 by 720) is given a scaled height of \<open>720 + 1 / 2 ^ 43\<close>, above the printable
  height, and a scaled width different from 540, so neither side meets its bound exactly.
\<close>

theorem scaled_height_exceeds_printable:
  "fit_image 1125 2436 =
     Inr \<lparr>available_w = 540, available_h = 720,
          scale = 5324452761423247 / 18014398509481984,
          new_w = 5849618512305813 / 17592186044416,
          new_h = 6333186975989761 / 8796093022208,
          pos_x = 4916799346876779 / 35184372088832,
          pos_y = 633318697598975 / 17592186044416\<rparr>
   \<and> (720 :: rat) < 6333186975989761 / 8796093022208
   \<and> (5849618512305813 / 17592186044416 :: rat) \<noteq> 540"
proof (intro conjI)
  show "fit_image 1125 2436 =
     Inr \<lparr>available_w = 540, available_h = 720,
          scale = 5324452761423247 / 18014398509481984,
          new_w = 5849618512305813 / 17592186044416,
          new_h = 6333186975989761 / 8796093022208,
          pos_x = 4916799346876779 / 35184372088832,
          pos_y = 633318697598975 / 17592186044416\<rparr>"
    by code_simp
  show "(720 :: rat) < 6333186975989761 / 8796093022208" by simp
  show "(5849618512305813 / 17592186044416 :: rat) \<noteq> 540" by simp
qed

section \<open>Centring (C9)\<close>

text \<open>
  C9. For every image with positive width and height (below \<open>2 ^ 53\<close>; Pillow keeps
  the sides of an image below \<open>2 ^ 31\<close>) the placement origin is
  \<open>((page_w - new_w) / 2, (page_h - new_h) / 2)\<close> in Python's float arithmetic, and in
  that arithmetic \<open>x + new_w / 2\<close> equals \<open>page_w / 2\<close> and \<open>y + new_h / 2\<close>
  equals \<open>page_h / 2\<close>, exactly: the image is centred on the page in both directions.
\<close>

theorem placement_centred:
  assumes "0 < w" and "w < 2 ^ 53" and "0 < h" and "h < 2 ^ 53"
  shows "\<exists>pl. fit_image w h = Inr pl
     \<and> pos_x pl = float_div (float_sub (py_float (fst (page_size w h))) (new_w pl)) (py_float 2)
     \<and> pos_y pl = float_div (float_sub (py_float (snd (page_size w h))) (new_h pl)) (py_float 2)
     \<and> Inr (float_add (pos_x pl) (float_div (new_w pl) (py_float 2)))
         = int_truediv (fst (page_size w h)) 2
     \<and> Inr (float_add (pos_y pl) (float_div (new_h pl) (py_float 2)))
         = int_truediv (snd (page_size w h)) 2"
proof -
  have pg: "page_size w h = portrait_size \<or> page_size w h = landscape_size"
    by (simp add: page_size_def)
  show ?thesis
    unfolding fit_image_def
    using place_on_letter [OF assms pg] by blast
qed

text \<open>The 1125 by 2436 image, whose scaled sides are not whole numbers, is centred.\<close>

theorem placement_centred_witness:
  "\<exists>pl. fit_image 1125 2436 = Inr pl
     \<and> Inr (float_add (pos_x pl) (float_div (new_w pl) (py_float 2))) = int_truediv 612 2
     \<and> Inr (float_add (pos_y pl) (float_div (new_h pl) (py_float 2))) = int_truediv 792 2"
  using placement_centred [of 1125 2436]
  by (auto simp: page_size_def portrait_size_def)

section \<open>The run, step by step\<close>



lemma place_on_page_ok: "0 < w \<Longrightarrow> 0 < h \<Longrightarrow> \<exists>pl. place_on_page pg w h = Inr pl"
  by (simp add: place_on_page_def int_truediv_def Let_def)

lemma place_on_page_zero: "w = 0 \<or> h = 0 \<Longrightarrow> place_on_page pg w h = Inl ZeroDivisionError"
  by (auto simp add: place_on_page_def int_truediv_def Let_def)

lemma place_on_page_Inl: "place_on_page pg w h = Inl ex \<Longrightarrow> ex = ZeroDivisionError \<and> (w = 0 \<or> h = 0)"
  by (auto simp add: place_on_page_def int_truediv_def Let_def split: if_splits)

lemma stored_page_size_eq:
  "stored_page_size w h = (if h \<ge> w then (612, 792) else (792, 612))"
  by (simp add: stored_page_size_def page_size_def portrait_size_def landscape_size_def)

lemma process_image_Inr:
  assumes "load_image E p = Inr img" and "0 < width img" and "0 < height img"
  shows "\<exists>d. d_image d = img \<and> process_image E pdf p =
     Inr (pdf\<lparr>pagesize := stored_page_size (width img) (height img),
              pages := pages pdf @ [\<lparr>page_dims = stored_page_size (width img) (height img),
                                       content = code pdf @ [d]\<rparr>],
              code := []\<rparr>)"
proof -
  obtain pl where pl: "place_on_page (page_size (width img) (height img)) (width img) (height img) = Inr pl"
    using place_on_page_ok [OF assms(2,3)] by blast
  have lt: "(of_int (fst (page_size (width img) (height img))),
        of_int (snd (page_size (width img) (height img))))
      = stored_page_size (width img) (height img)"
    by (simp add: stored_page_size_def)
  show ?thesis
    by (rule exI [of _ "\<lparr>d_image = img, d_x = pos_x pl, d_y = pos_y pl,
          d_width = new_w pl, d_height = new_h pl\<rparr>"])
      (simp add: process_image_def assms(1) pl Let_def setPageSize_def drawInlineImage_def
        showPage_def lt)
qed

lemma process_image_fit_image:
  assumes "load_image E p = Inr img"
  shows "process_image E pdf p =
     (case fit_image (width img) (height img) of
        Inl e \<Rightarrow> Inl e
      | Inr pl \<Rightarrow>
          Inr (showPage (drawInlineImage
            (setPageSize pdf (page_size (width img) (height img))) img
            (pos_x pl) (pos_y pl) (new_w pl) (new_h pl))))"
  by (simp add: process_image_def assms fit_image_def Let_def)

lemma process_image_Inl:
  assumes "load_image E p = Inl ex \<or>
     (\<exists>img. load_image E p = Inr img \<and>
        place_on_page (page_size (width img) (height img)) (width img) (height img) = Inl ex)"
  shows "process_image E pdf p = Inl ex"
  using assms by (auto simp add: process_image_def Let_def)

lemma process_images_frame:
  "image_paths (fst (process_images E n i paths s pdf)) = image_paths s
   \<and> output_pdf_name (fst (process_images E n i paths s pdf)) = output_pdf_name s
   \<and> files (fst (process_images E n i paths s pdf)) = files s"
  by (induction paths arbitrary: i s pdf) (auto simp add: Let_def split: sum.splits)

lemma process_images_Inr:
  assumes "map (load_image E) paths = map Inr imgs"
    and "\<forall>img \<in> set imgs. 0 < width img \<and> 0 < height img"
    and "code pdf = []"
  shows "\<exists>s' pdf'. process_images E n i paths s pdf = (s', Inr pdf')
     \<and> events s' = events s @ map ImageOpen paths
     \<and> filename pdf' = filename pdf \<and> code pdf' = []
     \<and> map page_dims (pages pdf') =
         map page_dims (pages pdf) @ map (\<lambda>img. stored_page_size (width img) (height img)) imgs
     \<and> map (\<lambda>pg. map d_image (content pg)) (pages pdf') =
         map (\<lambda>pg. map d_image (content pg)) (pages pdf) @ map (\<lambda>img. [img]) imgs"
  using assms
proof (induction paths arbitrary: imgs i s pdf)
  case Nil
  then show ?case by simp
next
  case (Cons p ps)
  then obtain img rest where imgs: "imgs = img # rest" "load_image E p = Inr img"
      "map (load_image E) ps = map Inr rest"
    by (cases imgs) auto
  have pos: "0 < width img" "0 < height img" and rest: "\<forall>img \<in> set rest. 0 < width img \<and> 0 < height img"
    using Cons.prems(2) imgs(1) by simp_all
  obtain d where d: "d_image d = img" "process_image E pdf p =
     Inr (pdf\<lparr>pagesize := stored_page_size (width img) (height img),
              pages := pages pdf @ [\<lparr>page_dims = stored_page_size (width img) (height img),
                                       content = code pdf @ [d]\<rparr>],
              code := []\<rparr>)"
    using process_image_Inr [OF imgs(2) pos] by blast
  let ?pdf1 = "pdf\<lparr>pagesize := stored_page_size (width img) (height img),
              pages := pages pdf @ [\<lparr>page_dims = stored_page_size (width img) (height img),
                                       content = code pdf @ [d]\<rparr>],
              code := []\<rparr>"
  let ?s1 = "s\<lparr>status_text :=
                   ''Processing '' @ str_nat i @ ''/'' @ str_nat n @ '': '' @ basename E p,
                 events := events s @ [ImageOpen p]\<rparr>"
  have c: "code ?pdf1 = []" by simp
  from Cons.IH [OF imgs(3) rest c, of "i + 1" ?s1]
  obtain s' pdf' where r: "process_images E n (i + 1) ps ?s1 ?pdf1 = (s', Inr pdf')"
     "events s' = events ?s1 @ map ImageOpen ps"
     "filename pdf' = filename ?pdf1" "code pdf' = []"
     "map page_dims (pages pdf') =
         map page_dims (pages ?pdf1) @ map (\<lambda>img. stored_page_size (width img) (height img)) rest"
     "map (\<lambda>pg. map d_image (content pg)) (pages pdf') =
         map (\<lambda>pg. map d_image (content pg)) (pages ?pdf1) @ map (\<lambda>img. [img]) rest"
    by blast
  have "process_images E n i (p # ps) s pdf = (s', Inr pdf')"
    using r(1) by (simp add: d(2) Let_def)
  then show ?case
    using r(2-6) d(1) Cons.prems(3) by (simp add: imgs(1))
qed

lemma process_images_Inl:
  assumes "map (load_image E) ps = map Inr imgs"
    and "\<forall>img \<in> set imgs. 0 < width img \<and> 0 < height img"
    and "\<forall>pdf. process_image E pdf p = Inl ex"
  shows "\<exists>s'. process_images E n i (ps @ p # qs) s pdf = (s', Inl ex)
     \<and> events s' = events s @ map ImageOpen (ps @ [p])"
  using assms(1,2)
proof (induction ps arbitrary: imgs i s pdf)
  case Nil
  then show ?case by (simp add: assms(3) Let_def)
next
  case (Cons q ps)
  then obtain img rest where imgs: "imgs = img # rest" "load_image E q = Inr img"
      "map (load_image E) ps = map Inr rest"
    by (cases imgs) auto
  have pos: "0 < width img" "0 < height img" and rest: "\<forall>img \<in> set rest. 0 < width img \<and> 0 < height img"
    using Cons.prems(2) imgs(1) by simp_all
  obtain pdf1 where d: "process_image E pdf q = Inr pdf1"
    using process_image_Inr [OF imgs(2) pos, of pdf] by blast
  let ?s1 = "s\<lparr>status_text :=
                   ''Processing '' @ str_nat i @ ''/'' @ str_nat n @ '': '' @ basename E q,
                 events := events s @ [ImageOpen q]\<rparr>"
  from Cons.IH [OF imgs(3) rest, of "i + 1" ?s1 pdf1]
  obtain s' where r: "process_images E n (i + 1) (ps @ p # qs) ?s1 pdf1 = (s', Inl ex)"
     "events s' = events ?s1 @ map ImageOpen (ps @ [p])"
    by blast
  have "process_images E n i ((q # ps) @ p # qs) s pdf = (s', Inl ex)"
    using r(1) by (simp add: d Let_def)
  then show ?case using r(2) by simp
qed


lemma process_images_changes:
  "\<exists>st ev. fst (process_images E n i paths s pdf) = s\<lparr>status_text := st, events := ev\<rparr>"
proof (induction paths arbitrary: i s pdf)
  case Nil
  have "s = s\<lparr>status_text := status_text s, events := events s\<rparr>" by simp
  then show ?case by (metis fst_conv process_images.simps(1))
next
  case (Cons p ps)
  let ?s1 = "s\<lparr>status_text :=
                   ''Processing '' @ str_nat i @ ''/'' @ str_nat n @ '': '' @ basename E p,
                 events := events s @ [ImageOpen p]\<rparr>"
  show ?case
  proof (cases "process_image E pdf p")
    case (Inl e)
    then have "fst (process_images E n i (p # ps) s pdf) = ?s1" by (simp add: Let_def)
    then show ?thesis by blast
  next
    case (Inr pdf')
    obtain st ev where "fst (process_images E n (i + 1) ps ?s1 pdf') = ?s1\<lparr>status_text := st, events := ev\<rparr>"
      using Cons.IH by blast
    then have "fst (process_images E n i (p # ps) s pdf) = s\<lparr>status_text := st, events := ev\<rparr>"
      using Inr by (simp add: Let_def)
    then show ?thesis by blast
  qed
qed

lemma process_image_filename:
  "process_image E pdf p = Inr pdf' \<Longrightarrow> filename pdf' = filename pdf"
  by (auto simp add: process_image_def Let_def setPageSize_def drawInlineImage_def showPage_def
      split: sum.splits)

lemma process_images_filename:
  "process_images E n i paths s pdf = (s', Inr pdf') \<Longrightarrow> filename pdf' = filename pdf"
proof (induction paths arbitrary: i s pdf)
  case Nil
  then show ?case by simp
next
  case (Cons p ps)
  then show ?case
    by (auto simp add: Let_def split: sum.splits dest!: process_image_filename)
qed

lemma convert_changes:
  "\<exists>st ev fs. convert_images_to_pdf E s = s\<lparr>status_text := st, events := ev, files := fs\<rparr>
     \<and> (\<forall>path. path \<noteq> asksaveasfilename E (initialfile E s) \<longrightarrow> fs path = files s path)"
proof -
  define dest where "dest = asksaveasfilename E (initialfile E s)"
  define s1 where "s1 = s\<lparr>events := events s @ [AskSaveAs (initialfile E s), NewCanvas dest]\<rparr>"
  obtain s2 r where run: "process_images E (length (image_paths s)) 1 (image_paths s) s1 (Canvas E dest) = (s2, r)"
    by (cases "process_images E (length (image_paths s)) 1 (image_paths s) s1 (Canvas E dest)")
  obtain st ev where s2: "s2 = s1\<lparr>status_text := st, events := ev\<rparr>"
    using process_images_changes [of E "length (image_paths s)" 1 "image_paths s" s1 "Canvas E dest"] run
    by auto
  show ?thesis
  proof (cases "image_paths s = []")
    case True
    have "convert_images_to_pdf E s = s\<lparr>status_text := status_text s,
        events := events s @ [ShowWarning ''No images'' ''Please select at least one image.''],
        files := files s\<rparr>"
      using True by (simp add: convert_images_to_pdf_def)
    then show ?thesis by blast
  next
    case ne: False
    show ?thesis
    proof (cases "dest = []")
      case True
      have "convert_images_to_pdf E s = s\<lparr>status_text := status_text s,
        events := events s @ [AskSaveAs (initialfile E s)], files := files s\<rparr>"
        using ne True by (simp add: convert_images_to_pdf_def dest_def Let_def)
      then show ?thesis by blast
    next
      case chosen: False
      show ?thesis
      proof (cases r)
        case (Inl ex)
        have "convert_images_to_pdf E s = s\<lparr>status_text := ''Error.'',
            events := ev @ [ShowError ''Conversion failed''
               (''An error occurred:'' @ [CHR 0x0A] @ str_exn ex)], files := files s\<rparr>"
          using ne chosen run Inl
          by (simp add: convert_images_to_pdf_def dest_def [symmetric] Let_def s1_def [symmetric]
              on_error_def s2) (simp add: s1_def on_error_def)
        then show ?thesis by blast
      next
        case (Inr pdf)
        show ?thesis
        proof (cases "save_error E (filename pdf)")
          case (Some ex)
          have "convert_images_to_pdf E s = s\<lparr>status_text := ''Error.'',
            events := ev @ [SavePdf dest, ShowError ''Conversion failed''
               (''An error occurred:'' @ [CHR 0x0A] @ str_exn ex)], files := files s\<rparr>"
            using ne chosen run Inr Some
            by (simp add: convert_images_to_pdf_def dest_def [symmetric] Let_def s1_def [symmetric]
              on_error_def s2 save_def) (simp add: s1_def on_error_def save_def)
          then show ?thesis by blast
        next
          case None
          have fn: "filename pdf = dest"
            using process_images_filename [OF run [unfolded Inr]] by (simp add: Canvas_def)
          have "convert_images_to_pdf E s = s\<lparr>status_text := ''Done. Saved: '' @ basename E dest,
            events := ev @ [SavePdf dest, ShowInfo ''Success''
                                      (''PDF created successfully:'' @ [CHR 0x0A] @ dest)],
            files := (files s)(dest \<mapsto> pages (if code pdf = [] then pdf else showPage pdf))\<rparr>"
            using ne chosen run Inr None
            by (simp add: convert_images_to_pdf_def dest_def [symmetric] Let_def s1_def [symmetric]
              s2 save_def fn) (simp add: s1_def save_def fn)
          then show ?thesis unfolding dest_def by (metis fun_upd_other)
        qed
      qed
    qed
  qed
qed


lemma run_success:
  assumes ne: "image_paths s \<noteq> []"
    and loads: "map (load_image E) (image_paths s) = map Inr imgs"
    and pos: "\<forall>img \<in> set imgs. 0 < width img \<and> 0 < height img"
    and dest: "asksaveasfilename E (initialfile E s) = dest" "dest \<noteq> []"
    and writable: "save_error E dest = None"
  shows "\<exists>pgs. convert_images_to_pdf E s =
       s\<lparr>status_text := ''Done. Saved: '' @ basename E dest,
         events := events s @ [AskSaveAs (initialfile E s), NewCanvas dest]
           @ map ImageOpen (image_paths s)
           @ [SavePdf dest,
              ShowInfo ''Success'' (''PDF created successfully:'' @ [CHR 0x0A] @ dest)],
         files := (files s)(dest \<mapsto> pgs)\<rparr>
     \<and> map page_dims pgs = map (\<lambda>img. stored_page_size (width img) (height img)) imgs
     \<and> map (\<lambda>pg. map d_image (content pg)) pgs = map (\<lambda>img. [img]) imgs"
proof -
  define s1 where "s1 = s\<lparr>events := events s @ [AskSaveAs (initialfile E s), NewCanvas dest]\<rparr>"
  have c: "code (Canvas E dest) = []" by (simp add: Canvas_def)
  obtain s2 pdf where run:
      "process_images E (length (image_paths s)) 1 (image_paths s) s1 (Canvas E dest) = (s2, Inr pdf)"
      "events s2 = events s1 @ map ImageOpen (image_paths s)"
      "filename pdf = filename (Canvas E dest)" "code pdf = []"
      "map page_dims (pages pdf) = map page_dims (pages (Canvas E dest))
          @ map (\<lambda>img. stored_page_size (width img) (height img)) imgs"
      "map (\<lambda>pg. map d_image (content pg)) (pages pdf) =
         map (\<lambda>pg. map d_image (content pg)) (pages (Canvas E dest)) @ map (\<lambda>img. [img]) imgs"
    using process_images_Inr [OF loads pos c, of "length (image_paths s)" 1 s1] by blast
  obtain st ev where s2: "s2 = s1\<lparr>status_text := st, events := ev\<rparr>"
    using process_images_changes [of E "length (image_paths s)" 1 "image_paths s" s1 "Canvas E dest"] run(1)
    by auto
  have ev: "ev = events s @ [AskSaveAs (initialfile E s), NewCanvas dest] @ map ImageOpen (image_paths s)"
    using run(2) by (simp add: s2 s1_def)
  have fn: "filename pdf = dest" using run(3) by (simp add: Canvas_def)
  have "convert_images_to_pdf E s =
       s\<lparr>status_text := ''Done. Saved: '' @ basename E dest,
         events := ev @ [SavePdf dest,
              ShowInfo ''Success'' (''PDF created successfully:'' @ [CHR 0x0A] @ dest)],
         files := (files s)(dest \<mapsto> pages pdf)\<rparr>"
    using ne dest run(1,4) writable
    by (simp add: convert_images_to_pdf_def Let_def s1_def [symmetric] s2 save_def fn)
       (simp add: s1_def save_def fn)
  moreover have "map page_dims (pages pdf) = map (\<lambda>img. stored_page_size (width img) (height img)) imgs"
    using run(5) by (simp add: Canvas_def)
  moreover have "map (\<lambda>pg. map d_image (content pg)) (pages pdf) = map (\<lambda>img. [img]) imgs"
    using run(6) by (simp add: Canvas_def)
  ultimately show ?thesis by (intro exI [of _ "pages pdf"]) (simp add: ev)
qed

lemma run_failure:
  assumes paths: "image_paths s = ps @ p # qs"
    and loads: "map (load_image E) ps = map Inr imgs"
    and pos: "\<forall>img \<in> set imgs. 0 < width img \<and> 0 < height img"
    and fails: "load_image E p = Inl ex \<or>
       (\<exists>img. load_image E p = Inr img \<and>
          place_on_page (page_size (width img) (height img)) (width img) (height img) = Inl ex)"
    and dest: "asksaveasfilename E (initialfile E s) = dest" "dest \<noteq> []"
  shows "convert_images_to_pdf E s =
       s\<lparr>status_text := ''Error.'',
         events := events s @ [AskSaveAs (initialfile E s), NewCanvas dest]
           @ map ImageOpen (ps @ [p])
           @ [ShowError ''Conversion failed'' (''An error occurred:'' @ [CHR 0x0A] @ str_exn ex)]\<rparr>"
proof -
  define s1 where "s1 = s\<lparr>events := events s @ [AskSaveAs (initialfile E s), NewCanvas dest]\<rparr>"
  have f: "\<forall>pdf. process_image E pdf p = Inl ex"
    using process_image_Inl [OF fails] by blast
  obtain s2 where run:
      "process_images E (length (image_paths s)) 1 (ps @ p # qs) s1 (Canvas E dest) = (s2, Inl ex)"
      "events s2 = events s1 @ map ImageOpen (ps @ [p])"
    using process_images_Inl [OF loads pos f, of "length (image_paths s)" 1 qs s1 "Canvas E dest"]
    by blast
  obtain st ev where s2: "s2 = s1\<lparr>status_text := st, events := ev\<rparr>"
    using process_images_changes [of E "length (image_paths s)" 1 "ps @ p # qs" s1 "Canvas E dest"] run(1)
    by auto
  have ev: "ev = events s @ [AskSaveAs (initialfile E s), NewCanvas dest] @ map ImageOpen (ps @ [p])"
    using run(2) by (simp add: s2 s1_def)
  have ne: "image_paths s \<noteq> []" by (simp add: paths)
  have "convert_images_to_pdf E s = s\<lparr>status_text := ''Error.'',
         events := ev @ [ShowError ''Conversion failed''
            (''An error occurred:'' @ [CHR 0x0A] @ str_exn ex)]\<rparr>"
    using ne dest run(1) [folded paths]
    by (simp add: convert_images_to_pdf_def Let_def s1_def [symmetric] s2 on_error_def)
       (simp add: s1_def on_error_def)
  then show ?thesis by (simp add: ev)
qed

section \<open>Facts about the small world\<close>

lemma demo_image_fields:
  "mode (demo_image w h) = ''RGB''" "width (demo_image w h) = w" "height (demo_image w h) = h"
  by (simp_all add: demo_image_def)

lemma normalize_demo_image: "normalize_image demo_env (demo_image w h) = demo_image w h"
  by (simp add: normalize_image_def convert_def demo_image_def demo_env_def)

lemma demo_open:
  "image_open demo_env ''a.png'' = Inr (demo_image 800 600)"
  "image_open demo_env ''b.png'' = Inr (demo_image 600 800)"
  "image_open demo_env ''c.png'' = Inr (demo_image 800 800)"
  "image_open demo_env ''z.png'' = Inl (LibraryError ''cannot identify image file'')"
  "image_open demo_env ''missing.png'' = Inl (LibraryError ''cannot identify image file'')"
  "exif_transpose demo_env img = Inr img"
  by (simp_all add: demo_env_def)

lemma load_demo:
  "load_image demo_env ''a.png'' = Inr (demo_image 800 600)"
  "load_image demo_env ''b.png'' = Inr (demo_image 600 800)"
  "load_image demo_env ''c.png'' = Inr (demo_image 800 800)"
  "load_image demo_env ''z.png'' = Inl (LibraryError ''cannot identify image file'')"
  "load_image demo_env ''missing.png'' = Inl (LibraryError ''cannot identify image file'')"
  by (simp_all add: load_image_def demo_open normalize_demo_image)

lemma demo_dialog:
  "asksaveasfilename demo_env f = f"
  "initialfile demo_env (demo_state paths) = ''output.pdf''"
  "save_error demo_env path = None"
  "basename demo_env path = path"
  by (simp_all add: demo_env_def initialfile_def demo_state_def)

lemma demo_state_fields:
  "image_paths (demo_state paths) = paths" "events (demo_state paths) = []"
  "files (demo_state paths) = Map.empty" "status_text (demo_state paths) = ''Ready''"
  "output_pdf_name (demo_state paths) = []"
  by (simp_all add: demo_state_def)

section \<open>Page orientation (C1, C2)\<close>

text \<open>
  C1. In a run over images that all load with positive sides, with a destination chosen
  and writable, the saved document has, for each image in order, a page of 612 by 792
  points (portrait) if the image's height is at least its width, and of 792 by 612
  (landscape) otherwise. A square image gets portrait, and each page follows its own
  image only.
\<close>

theorem page_orientation_per_image:
  assumes "image_paths s \<noteq> []"
    and "map (load_image E) (image_paths s) = map Inr imgs"
    and "\<forall>img \<in> set imgs. 0 < width img \<and> 0 < height img"
    and "asksaveasfilename E (initialfile E s) = dest" and "dest \<noteq> []"
    and "save_error E dest = None"
  shows "\<exists>pgs. files (convert_images_to_pdf E s) dest = Some pgs
     \<and> map page_dims pgs =
         map (\<lambda>img. if height img \<ge> width img then (612, 792) else (792, 612)) imgs"
proof -
  obtain pgs where r: "convert_images_to_pdf E s =
       s\<lparr>status_text := ''Done. Saved: '' @ basename E dest,
         events := events s @ [AskSaveAs (initialfile E s), NewCanvas dest]
           @ map ImageOpen (image_paths s)
           @ [SavePdf dest,
              ShowInfo ''Success'' (''PDF created successfully:'' @ [CHR 0x0A] @ dest)],
         files := (files s)(dest \<mapsto> pgs)\<rparr>"
     "map page_dims pgs = map (\<lambda>img. stored_page_size (width img) (height img)) imgs"
    using run_success [OF assms] by blast
  show ?thesis
    by (rule exI [of _ pgs]) (simp add: r stored_page_size_eq cong: map_cong)
qed

text \<open>
  The example of the specification: images of 800 by 600, 600 by 800 and 800 by 800 give
  pages that are landscape, portrait, portrait, in that order.
\<close>

theorem page_orientation_example:
  "\<exists>pgs. files (convert_images_to_pdf demo_env (demo_state [''a.png'', ''b.png'', ''c.png'']))
            ''output.pdf'' = Some pgs
     \<and> map page_dims pgs = [(792, 612), (612, 792), (612, 792)]"
  using page_orientation_per_image [of "demo_state [''a.png'', ''b.png'', ''c.png'']" demo_env
      "[demo_image 800 600, demo_image 600 800, demo_image 800 800]" "''output.pdf''"]
  by (simp add: load_demo demo_dialog demo_state_fields demo_image_fields)

text \<open>
  C2 as stated fails: an 800 by 600 image has width at least height and gets the landscape
  page, and a 600 by 800 image has width below height and gets the portrait page.
\<close>

theorem wide_image_gets_landscape:
  "page_size 800 600 = (792, 612) \<and> page_size 600 800 = (612, 792)"
  by (simp add: page_size_def portrait_size_def landscape_size_def)

text \<open>
  C2, amended. Processing an image that loads with positive sides appends one page; the
  page is portrait (612 by 792) when the image's width is at most its height, and
  landscape (792 by 612) when its width exceeds its height. A square image gets portrait.
\<close>

theorem page_geometry_by_shape:
  assumes "load_image E p = Inr img" and "0 < width img" and "0 < height img"
  shows "\<exists>pdf'. process_image E pdf p = Inr pdf'
     \<and> length (pages pdf') = Suc (length (pages pdf))
     \<and> page_dims (last (pages pdf')) =
         (if width img \<le> height img then (612, 792) else (792, 612))"
proof -
  obtain d where "process_image E pdf p =
     Inr (pdf\<lparr>pagesize := stored_page_size (width img) (height img),
              pages := pages pdf @ [\<lparr>page_dims = stored_page_size (width img) (height img),
                                       content = code pdf @ [d]\<rparr>],
              code := []\<rparr>)"
    using process_image_Inr [OF assms] by blast
  then show ?thesis by (simp add: stored_page_size_eq)
qed

theorem page_geometry_by_shape_witness:
  "\<exists>pdf'. process_image demo_env (Canvas demo_env ''output.pdf'') ''a.png'' = Inr pdf'
     \<and> length (pages pdf') = 1 \<and> page_dims (last (pages pdf')) = (792, 612)"
  using page_geometry_by_shape [of demo_env "''a.png''" "demo_image 800 600" "Canvas demo_env ''output.pdf''"]
  by (simp add: load_demo demo_image_fields Canvas_def)

section \<open>Degenerate images (C4)\<close>





section \<open>Normalisation (C5)\<close>

lemma over_white:
  "take 3 (over [255, 255, 255, 255] [r, g, b, a]) = [blend r 255 a, blend g 255 a, blend b 255 a]"
  by simp



section \<open>The whole run (C6, C7, C8, C10)\<close>

text \<open>
  C6. For a non-empty list of paths whose images all load with positive sides, and a
  destination that is chosen and writable, the run saves one document at the destination.
  It has as many pages as there are paths, and page \<open>i\<close> shows exactly the image loaded
  from path \<open>i\<close>. The images are opened in list order, the document is saved once, after
  the last image, and the status reports the saved file.
\<close>

theorem one_page_per_image_in_order:
  assumes "image_paths s \<noteq> []"
    and "map (load_image E) (image_paths s) = map Inr imgs"
    and "\<forall>img \<in> set imgs. 0 < width img \<and> 0 < height img"
    and "asksaveasfilename E (initialfile E s) = dest" and "dest \<noteq> []"
    and "save_error E dest = None"
  shows "\<exists>pgs. files (convert_images_to_pdf E s) dest = Some pgs
     \<and> length pgs = length (image_paths s)
     \<and> map (\<lambda>pg. map d_image (content pg)) pgs = map (\<lambda>img. [img]) imgs
     \<and> events (convert_images_to_pdf E s) =
         events s @ [AskSaveAs (initialfile E s), NewCanvas dest]
           @ map ImageOpen (image_paths s)
           @ [SavePdf dest,
              ShowInfo ''Success'' (''PDF created successfully:'' @ [CHR 0x0A] @ dest)]
     \<and> status_text (convert_images_to_pdf E s) = ''Done. Saved: '' @ basename E dest"
proof -
  obtain pgs where r: "convert_images_to_pdf E s =
       s\<lparr>status_text := ''Done. Saved: '' @ basename E dest,
         events := events s @ [AskSaveAs (initialfile E s), NewCanvas dest]
           @ map ImageOpen (image_paths s)
           @ [SavePdf dest,
              ShowInfo ''Success'' (''PDF created successfully:'' @ [CHR 0x0A] @ dest)],
         files := (files s)(dest \<mapsto> pgs)\<rparr>"
     "map (\<lambda>pg. map d_image (content pg)) pgs = map (\<lambda>img. [img]) imgs"
    using run_success [OF assms] by blast
  have "length pgs = length imgs" using r(2) by (rule map_eq_imp_length_eq)
  moreover have "length (image_paths s) = length imgs" using assms(2) by (rule map_eq_imp_length_eq)
  ultimately show ?thesis
    by (intro exI [of _ pgs]) (simp add: r)
qed

theorem one_page_per_image_witness:
  "\<exists>pgs. files (convert_images_to_pdf demo_env (demo_state [''b.png'', ''a.png'']))
            ''output.pdf'' = Some pgs
     \<and> length pgs = 2
     \<and> map (\<lambda>pg. map d_image (content pg)) pgs = [[demo_image 600 800], [demo_image 800 600]]
     \<and> events (convert_images_to_pdf demo_env (demo_state [''b.png'', ''a.png''])) =
         [AskSaveAs ''output.pdf'', NewCanvas ''output.pdf'', ImageOpen ''b.png'',
          ImageOpen ''a.png'', SavePdf ''output.pdf'',
          ShowInfo ''Success'' (''PDF created successfully:'' @ [CHR 0x0A] @ ''output.pdf'')]
     \<and> status_text (convert_images_to_pdf demo_env (demo_state [''b.png'', ''a.png''])) =
         ''Done. Saved: output.pdf''"
  using one_page_per_image_in_order [of "demo_state [''b.png'', ''a.png'']" demo_env
      "[demo_image 600 800, demo_image 800 600]" "''output.pdf''"]
  by (simp add: load_demo demo_dialog demo_state_fields demo_image_fields numeral_2_eq_2)

text \<open>
  C7. If the images before \<open>p\<close> load with positive sides and the image at \<open>p\<close> fails,
  in loading or in placing, the run stops there: no file is written, the status is
  \<open>Error.\<close>, and the calls made are the save dialog, the new canvas, one opening for
  each path up to and including \<open>p\<close>, and the error dialog. No path after \<open>p\<close> is opened,
  no path is opened twice, and \<open>save\<close> is not called.
\<close>

theorem error_aborts_run:
  assumes "image_paths s = ps @ p # qs"
    and "map (load_image E) ps = map Inr imgs"
    and "\<forall>img \<in> set imgs. 0 < width img \<and> 0 < height img"
    and "load_image E p = Inl ex \<or>
       (\<exists>img. load_image E p = Inr img \<and>
          place_on_page (page_size (width img) (height img)) (width img) (height img) = Inl ex)"
    and "asksaveasfilename E (initialfile E s) = dest" and "dest \<noteq> []"
  shows "files (convert_images_to_pdf E s) = files s
     \<and> status_text (convert_images_to_pdf E s) = ''Error.''
     \<and> events (convert_images_to_pdf E s) =
         events s @ [AskSaveAs (initialfile E s), NewCanvas dest]
           @ map ImageOpen (ps @ [p])
           @ [ShowError ''Conversion failed'' (''An error occurred:'' @ [CHR 0x0A] @ str_exn ex)]"
proof -
  let ?trace = "events s @ [AskSaveAs (initialfile E s), NewCanvas dest]
      @ map ImageOpen (ps @ [p])
      @ [ShowError ''Conversion failed'' (''An error occurred:'' @ [CHR 0x0A] @ str_exn ex)]"
  have final: "convert_images_to_pdf E s = s\<lparr>status_text := ''Error.'', events := ?trace\<rparr>"
    by (rule run_failure [OF assms])
  have "files (convert_images_to_pdf E s) = files s"
    by (simp only: final) simp
  moreover have "status_text (convert_images_to_pdf E s) = ''Error.''"
    by (simp only: final) simp
  moreover have "events (convert_images_to_pdf E s) = ?trace"
    by (simp only: final) simp
  ultimately show ?thesis by blast
qed

theorem error_aborts_run_witness:
  "files (convert_images_to_pdf demo_env (demo_state [''a.png'', ''missing.png'', ''b.png'']))
     = Map.empty
   \<and> status_text (convert_images_to_pdf demo_env (demo_state [''a.png'', ''missing.png'', ''b.png'']))
     = ''Error.''
   \<and> events (convert_images_to_pdf demo_env (demo_state [''a.png'', ''missing.png'', ''b.png''])) =
       [AskSaveAs ''output.pdf'', NewCanvas ''output.pdf'', ImageOpen ''a.png'',
        ImageOpen ''missing.png'',
        ShowError ''Conversion failed''
          (''An error occurred:'' @ [CHR 0x0A] @ ''cannot identify image file'')]"
  using error_aborts_run [of "demo_state [''a.png'', ''missing.png'', ''b.png'']"
      "[''a.png'']" "''missing.png''" "[''b.png'']" demo_env "[demo_image 800 600]"
      "LibraryError ''cannot identify image file''" "''output.pdf''"]
  by (simp add: load_demo demo_dialog demo_state_fields demo_image_fields)

text \<open>
  C8. On an empty list the run only shows the warning: no save dialog, no canvas, no
  image opened, nothing saved; the files and every field of the object are as before.
\<close>

theorem empty_list_is_rejected:
  assumes "image_paths s = []"
  shows "convert_images_to_pdf E s =
     s\<lparr>events := events s @ [ShowWarning ''No images'' ''Please select at least one image.'']\<rparr>"
  using assms by (simp add: convert_images_to_pdf_def)

theorem empty_list_is_rejected_witness:
  "convert_images_to_pdf demo_env (demo_state []) =
     \<lparr>image_paths = [], output_pdf_name = [], status_text = ''Ready'', files = Map.empty,
      events = [ShowWarning ''No images'' ''Please select at least one image.'']\<rparr>"
  using empty_list_is_rejected [of "demo_state []" demo_env]
  by (simp add: demo_state_def)

text \<open>
  C10. Whatever the starting state and the outcome, a run leaves the list of image paths
  and the output name as they were, and changes no file other than the one at the chosen
  destination.
\<close>

theorem image_list_untouched:
  "image_paths (convert_images_to_pdf E s) = image_paths s
   \<and> output_pdf_name (convert_images_to_pdf E s) = output_pdf_name s
   \<and> (\<forall>path. path \<noteq> asksaveasfilename E (initialfile E s) \<longrightarrow>
         files (convert_images_to_pdf E s) path = files s path)"
proof -
  obtain st ev fs where "convert_images_to_pdf E s = s\<lparr>status_text := st, events := ev, files := fs\<rparr>"
     "\<forall>path. path \<noteq> asksaveasfilename E (initialfile E s) \<longrightarrow> fs path = files s path"
    using convert_changes [of E s] by blast
  then show ?thesis by simp
qed

theorem image_list_untouched_witness:
  "image_paths (convert_images_to_pdf demo_env (demo_state [''c.png'', ''missing.png''])) =
     [''c.png'', ''missing.png'']
   \<and> files (convert_images_to_pdf demo_env (demo_state [''c.png'', ''missing.png''])) ''other.pdf''
     = None"
  using image_list_untouched [of demo_env "demo_state [''c.png'', ''missing.png'']"]
  by (simp add: demo_dialog demo_state_fields)

end
